theory Spec2Isabelle
  imports Main "HOL-Library.Word"
begin

section \<open>The file, the operating system and the random source\<close>

text \<open>
  The program (\<^verbatim>\<open>secure_file_erasing.c\<close>) talks to one open file descriptor through
  \<^verbatim>\<open>fstat\<close>, \<^verbatim>\<open>lseek\<close>, \<^verbatim>\<open>write\<close> and \<^verbatim>\<open>fsync\<close>, and draws random bytes from
  \<^verbatim>\<open>spc_rand\<close>. None of these is defined by the program, so each is an oracle of the
  environment: the answer to a call is a function of the number of calls made so far
  (the length of the trace). The file itself is a byte list with a file offset; every
  call is appended to the trace, and after every call the environment may change the
  file's content behind the program's back (\<open>ext\<close>).
\<close>

type_synonym byte = "8 word"

text \<open>What one call of \<^verbatim>\<open>write(fd, p, count)\<close> answers: the kernel takes at most \<open>k\<close>
  bytes (the call returns \<open>min k count\<close>), or it returns \<open>-1\<close> with \<^verbatim>\<open>errno = EINTR\<close>, or
  it returns \<open>-1\<close> with any other \<^verbatim>\<open>errno\<close>.\<close>

datatype wres = Accept nat | Eintr | Werr

datatype event =
    Fstat "nat option"
  | Lseek int
  | Rand nat
  | Write "byte list" nat wres
  | Fsync

record env =
  fstat_ok :: "nat \<Rightarrow> bool"
  lseek_ret :: "nat \<Rightarrow> int"
  write_ret :: "nat \<Rightarrow> wres"
  fsync_ret :: "nat \<Rightarrow> int"
  rand_byte :: "nat \<Rightarrow> nat \<Rightarrow> byte"
  ext :: "nat \<Rightarrow> byte list \<Rightarrow> byte list"

record fstate =
  trace :: "event list"
  content :: "byte list"
  pos :: nat

definition tick :: "fstate \<Rightarrow> nat" where
  "tick s = length (trace s)"

definition log :: "env \<Rightarrow> event \<Rightarrow> fstate \<Rightarrow> fstate" where
  "log E e s = s\<lparr>trace := trace s @ [e], content := ext E (tick s) (content s)\<rparr>"

text \<open>\<^verbatim>\<open>fstat(fd, &st)\<close>: \<open>None\<close> is the return value \<open>-1\<close>, \<open>Some n\<close> is success with
  \<^verbatim>\<open>st.st_size = n\<close>, the current length of the file.\<close>

definition sys_fstat :: "env \<Rightarrow> fstate \<Rightarrow> nat option \<times> fstate" where
  "sys_fstat E s =
     (let r = (if fstat_ok E (tick s) then Some (length (content s)) else None)
      in (r, log E (Fstat r) s))"

text \<open>\<^verbatim>\<open>lseek(fd, 0, SEEK_SET)\<close>: returns the resulting offset, or \<open>-1\<close>.\<close>

definition sys_lseek :: "env \<Rightarrow> fstate \<Rightarrow> int \<times> fstate" where
  "sys_lseek E s =
     (let r = lseek_ret E (tick s)
      in (r, log E (Lseek r) (if 0 \<le> r then s\<lparr>pos := nat r\<rparr> else s)))"

definition overwrite :: "byte list \<Rightarrow> nat \<Rightarrow> byte list \<Rightarrow> byte list" where
  "overwrite c p d = take p (c @ replicate (p - length c) 0) @ d @ drop (p + length d) c"

text \<open>\<^verbatim>\<open>write(fd, p, count)\<close>, where \<open>dat\<close> are the \<open>count\<close> bytes at \<open>p\<close>.\<close>

definition sys_write :: "env \<Rightarrow> fstate \<Rightarrow> byte list \<Rightarrow> nat \<Rightarrow> wres \<times> fstate" where
  "sys_write E s dat count =
     (case write_ret E (tick s) of
        Accept k \<Rightarrow>
          (let n = min k count
           in (Accept n,
               log E (Write dat count (Accept n))
                 (s\<lparr>content := overwrite (content s) (pos s) (take n dat), pos := pos s + n\<rparr>)))
      | Eintr \<Rightarrow> (Eintr, log E (Write dat count Eintr) s)
      | Werr \<Rightarrow> (Werr, log E (Write dat count Werr) s))"

definition sys_fsync :: "env \<Rightarrow> fstate \<Rightarrow> int \<times> fstate" where
  "sys_fsync E s = (fsync_ret E (tick s), log E Fsync s)"

text \<open>\<^verbatim>\<open>spc_rand(buf, n)\<close> fills \<open>n\<close> bytes from the random source.\<close>

definition spc_rand :: "env \<Rightarrow> fstate \<Rightarrow> nat \<Rightarrow> byte list \<times> fstate" where
  "spc_rand E s n = (map (rand_byte E (tick s)) [0..<n], log E (Rand n) s)"

section \<open>The program\<close>

text \<open>
  The functions below follow \<^verbatim>\<open>secure_file_erasing.c\<close> statement by statement (the source
  text prints the operator \<^verbatim>\<open>==\<close> as \<^verbatim>\<open>= =\<close>). Sizes and counts (\<^verbatim>\<open>size_t\<close>, and the
  \<^verbatim>\<open>off_t\<close> size of a regular file) are natural numbers: the program only subtracts from
  them what it has written, and adds to \<open>written\<close> at most what remains, so none of its
  arithmetic can wrap. A function returns \<open>Some\<close> of its C return value and the new state
  of the file, or \<open>None\<close> when it does not return.
\<close>

definition SPC_WIPE_BUFSIZE :: nat where
  "SPC_WIPE_BUFSIZE = 4096"

text \<open>\<^verbatim>\<open>SSIZE_MAX\<close> of \<^verbatim>\<open><limits.h>\<close>, for a 64-bit \<^verbatim>\<open>ssize_t\<close>.\<close>

definition SSIZE_MAX :: nat where
  "SSIZE_MAX = 2 ^ 63 - 1"

text \<open>\<^verbatim>\<open>write_data\<close>: the \<^verbatim>\<open>do ... while (written < nbytes)\<close> loop, with \<open>written\<close> as
  the loop variable. The loop has no bound on retries, so the model is a partial
  function: \<open>None\<close> is a call that never returns. The result is the C return value
  (\<open>1\<close> success, \<open>0\<close> failure).\<close>

partial_function (option) write_loop ::
  "env \<Rightarrow> fstate \<Rightarrow> byte list \<Rightarrow> nat \<Rightarrow> nat \<Rightarrow> (int \<times> fstate) option" where
  "write_loop E s buf nbytes written =
     (let towrite = (if nbytes - written > SSIZE_MAX then SSIZE_MAX else nbytes - written)
      in case sys_write E s (take towrite (drop written buf)) towrite of
           (Accept result, s') \<Rightarrow>
             if written + result < nbytes then write_loop E s' buf nbytes (written + result)
             else Some (1, s')
         | (Eintr, s') \<Rightarrow>
             if written < nbytes then write_loop E s' buf nbytes written
             else Some (1, s')
         | (Werr, s') \<Rightarrow> Some (0, s'))"

definition write_data :: "env \<Rightarrow> fstate \<Rightarrow> byte list \<Rightarrow> nat \<Rightarrow> (int \<times> fstate) option" where
  "write_data E s buf nbytes = write_loop E s buf nbytes 0"

text \<open>\<^verbatim>\<open>random_pass\<close>. \<open>random_loop\<close> is the \<^verbatim>\<open>while (nbytes > 0)\<close> loop together with the
  two statements after it (\<^verbatim>\<open>fsync(fd); return 0;\<close>); the value of \<^verbatim>\<open>fsync\<close> is dropped,
  as in the source. Only the first \<open>towrite\<close> bytes of the local buffer are ever read,
  so the buffer handed to \<open>write_data\<close> is the list of bytes \<^verbatim>\<open>spc_rand\<close> produced.\<close>

partial_function (option) random_loop ::
  "env \<Rightarrow> fstate \<Rightarrow> nat \<Rightarrow> (int \<times> fstate) option" where
  "random_loop E s nbytes =
     (if nbytes > 0 then
        (let towrite = (if nbytes > SPC_WIPE_BUFSIZE then SPC_WIPE_BUFSIZE else nbytes)
         in case spc_rand E s towrite of
              (buf, s1) \<Rightarrow>
                (case write_data E s1 buf towrite of
                   None \<Rightarrow> None
                 | Some (ok, s2) \<Rightarrow>
                     if ok = 0 then Some (- 1, s2)
                     else random_loop E s2 (nbytes - towrite)))
      else (case sys_fsync E s of (r, s') \<Rightarrow> Some (0, s')))"

definition random_pass :: "env \<Rightarrow> fstate \<Rightarrow> nat \<Rightarrow> (int \<times> fstate) option" where
  "random_pass E s nbytes =
     (case sys_lseek E s of
        (r, s1) \<Rightarrow> if r \<noteq> 0 then Some (- 1, s1) else random_loop E s1 nbytes)"

text \<open>\<^verbatim>\<open>pattern_pass\<close>: the same shape, with the caller's buffer written as it is.\<close>

partial_function (option) pattern_loop ::
  "env \<Rightarrow> fstate \<Rightarrow> byte list \<Rightarrow> nat \<Rightarrow> nat \<Rightarrow> (int \<times> fstate) option" where
  "pattern_loop E s buf bufsz filesz =
     (if filesz > 0 then
        (let towrite = (if filesz > bufsz then bufsz else filesz)
         in case write_data E s buf towrite of
              None \<Rightarrow> None
            | Some (ok, s1) \<Rightarrow>
                if ok = 0 then Some (- 1, s1)
                else pattern_loop E s1 buf bufsz (filesz - towrite))
      else (case sys_fsync E s of (r, s') \<Rightarrow> Some (0, s')))"

definition pattern_pass ::
  "env \<Rightarrow> fstate \<Rightarrow> byte list \<Rightarrow> nat \<Rightarrow> nat \<Rightarrow> (int \<times> fstate) option" where
  "pattern_pass E s buf bufsz filesz =
     (if bufsz = 0 then Some (- 1, s)
      else case sys_lseek E s of
             (r, s1) \<Rightarrow> if r \<noteq> 0 then Some (- 1, s1) else pattern_loop E s1 buf bufsz filesz)"

text \<open>The pattern tables of \<^verbatim>\<open>spc_fd_wipe\<close>.\<close>

definition single_pats :: "byte list" where
  "single_pats =
     [0x00, 0x11, 0x22, 0x33, 0x44, 0x55, 0x66, 0x77,
      0x88, 0x99, 0xaa, 0xbb, 0xcc, 0xdd, 0xee, 0xff]"

definition triple_pats :: "byte list list" where
  "triple_pats =
     [[0x92, 0x49, 0x24], [0x49, 0x24, 0x92], [0x24, 0x92, 0x49],
      [0x6d, 0xb6, 0xdb], [0xb6, 0xdb, 0x6d], [0xdb, 0x6d, 0xb6]]"

text \<open>\<^verbatim>\<open>patternsz = sizeof(triple_pats[0])\<close>.\<close>

definition patternsz :: nat where
  "patternsz = length (triple_pats ! 0)"

text \<open>\<^verbatim>\<open>memset(buf, c, n)\<close> and \<^verbatim>\<open>memcpy(dst + off, src, n)\<close> on a buffer that is long
  enough (the program's always is).\<close>

definition memset :: "byte list \<Rightarrow> byte \<Rightarrow> nat \<Rightarrow> byte list" where
  "memset buf c n = replicate n c @ drop n buf"

definition memcpy :: "byte list \<Rightarrow> nat \<Rightarrow> byte list \<Rightarrow> nat \<Rightarrow> byte list" where
  "memcpy dst off src n = take off dst @ take n src @ drop (off + n) dst"

text \<open>The state of \<^verbatim>\<open>spc_fd_wipe\<close> between two statements: the file and the local
  scratch buffer \<^verbatim>\<open>buf\<close>. A step returns what the pass it runs returned.\<close>

type_synonym wstate = "fstate \<times> byte list"

text \<open>\<^verbatim>\<open>random_pass(fd, st.st_size)\<close>.\<close>

definition rnd_step :: "env \<Rightarrow> nat \<Rightarrow> wstate \<Rightarrow> (int \<times> wstate) option" where
  "rnd_step E sz st =
     (case st of (s, buf) \<Rightarrow> map_option (\<lambda>(r, s'). (r, s', buf)) (random_pass E s sz))"

text \<open>\<^verbatim>\<open>memset(buf, c, sizeof(buf)); pattern_pass(fd, buf, sizeof(buf), st.st_size)\<close>.\<close>

definition single_step :: "env \<Rightarrow> nat \<Rightarrow> byte \<Rightarrow> wstate \<Rightarrow> (int \<times> wstate) option" where
  "single_step E sz c st =
     (case st of (s, buf) \<Rightarrow>
        (let buf' = memset buf c SPC_WIPE_BUFSIZE
         in map_option (\<lambda>(r, s'). (r, s', buf')) (pattern_pass E s buf' SPC_WIPE_BUFSIZE sz)))"

text \<open>The body of the two loops over \<^verbatim>\<open>triple_pats\<close>: \<open>count\<close> copies of the pattern
  are laid into the buffer, and \<^verbatim>\<open>patternsz * count\<close> bytes of it are handed to
  \<^verbatim>\<open>pattern_pass\<close>.\<close>

definition triple_step :: "env \<Rightarrow> nat \<Rightarrow> byte list \<Rightarrow> wstate \<Rightarrow> (int \<times> wstate) option" where
  "triple_step E sz pattern st =
     (case st of (s, buf) \<Rightarrow>
        (let count = SPC_WIPE_BUFSIZE div patternsz;
             buf' = foldl (\<lambda>b i. memcpy b (i * patternsz) pattern patternsz) buf [0..<count]
         in map_option (\<lambda>(r, s'). (r, s', buf')) (pattern_pass E s buf' (patternsz * count) sz)))"

text \<open>Statements in sequence, each of the form \<^verbatim>\<open>if (step == -1) return -1;\<close>, and the
  \<^verbatim>\<open>for (pass = ...; pass < ...; pass++)\<close> loops over such a statement.\<close>

fun seq :: "(wstate \<Rightarrow> (int \<times> wstate) option) list \<Rightarrow> wstate \<Rightarrow> (int \<times> wstate) option" where
  "seq [] st = Some (0, st)"
| "seq (f # fs) st =
     (case f st of
        None \<Rightarrow> None
      | Some (r, st') \<Rightarrow> if r = - 1 then Some (- 1, st') else seq fs st')"

definition for_pass ::
  "nat list \<Rightarrow> (nat \<Rightarrow> wstate \<Rightarrow> (int \<times> wstate) option) \<Rightarrow> wstate \<Rightarrow> (int \<times> wstate) option" where
  "for_pass is body = seq (map body is)"

text \<open>\<^verbatim>\<open>spc_fd_wipe\<close>. The content of the local buffer is indeterminate at first in C;
  the first \<^verbatim>\<open>memset\<close> overwrites all of it before anything reads it.\<close>

definition spc_fd_wipe :: "env \<Rightarrow> fstate \<Rightarrow> (int \<times> fstate) option" where
  "spc_fd_wipe E s =
     (case sys_fstat E s of
        (None, s0) \<Rightarrow> Some (- 1, s0)
      | (Some st_size, s0) \<Rightarrow>
          if st_size = 0 then Some (0, s0)
          else map_option (\<lambda>(r, s', buf). (r, s'))
                 (seq
                    [for_pass [0..<4] (\<lambda>pass. rnd_step E st_size),
                     single_step E st_size (single_pats ! 5),
                     single_step E st_size (single_pats ! 10),
                     for_pass [0..<3] (\<lambda>pass. triple_step E st_size (triple_pats ! pass)),
                     for_pass [0..<length single_pats]
                       (\<lambda>pass. single_step E st_size (single_pats ! pass)),
                     for_pass [0..<length (concat triple_pats) div patternsz]
                       (\<lambda>pass. triple_step E st_size (triple_pats ! pass)),
                     for_pass [0..<4] (\<lambda>pass. rnd_step E st_size)]
                    (s0, replicate SPC_WIPE_BUFSIZE 0)))"

section \<open>Observations on traces\<close>

text \<open>The events a run from \<open>s\<close> to \<open>s'\<close> added to the trace.\<close>

definition new_events :: "fstate \<Rightarrow> fstate \<Rightarrow> event list" where
  "new_events s s' = drop (length (trace s)) (trace s')"

text \<open>The number of bytes the kernel took in a list of events (the sum of the values
  \<^verbatim>\<open>write\<close> returned), and those bytes in the order they were written.\<close>

fun wrote :: "event list \<Rightarrow> nat" where
  "wrote [] = 0"
| "wrote (Write d c (Accept k) # es) = k + wrote es"
| "wrote (e # es) = wrote es"

fun out :: "event list \<Rightarrow> byte list" where
  "out [] = []"
| "out (Write d c (Accept k) # es) = take k d @ out es"
| "out (e # es) = out es"

text \<open>Kinds of events. A call has failed when \<^verbatim>\<open>fstat\<close> returned \<open>-1\<close>, when \<^verbatim>\<open>lseek\<close> did
  not return 0, or when \<^verbatim>\<open>write\<close> returned \<open>-1\<close> with an error other than \<^verbatim>\<open>EINTR\<close>.\<close>

fun failed :: "event \<Rightarrow> bool" where
  "failed (Fstat None) = True"
| "failed (Lseek r) = (r \<noteq> 0)"
| "failed (Write d c Werr) = True"
| "failed e = False"

fun is_data :: "event \<Rightarrow> bool" where
  "is_data (Rand n) = True"
| "is_data (Write d c r) = True"
| "is_data e = False"

fun is_lseek :: "event \<Rightarrow> bool" where
  "is_lseek (Lseek r) = True"
| "is_lseek e = False"

fun is_fsync :: "event \<Rightarrow> bool" where
  "is_fsync Fsync = True"
| "is_fsync e = False"

fun is_fstat :: "event \<Rightarrow> bool" where
  "is_fstat (Fstat r) = True"
| "is_fstat e = False"

text \<open>Every pass makes exactly one \<^verbatim>\<open>lseek\<close> call, its first, and one \<^verbatim>\<open>fsync\<close> call, its
  last when it completes.\<close>

definition passes_started :: "event list \<Rightarrow> nat" where
  "passes_started evs = length (filter is_lseek evs)"

definition passes_completed :: "event list \<Rightarrow> nat" where
  "passes_completed evs = length (filter is_fsync evs)"

text \<open>What a caller of the wipe can observe: the return value and the calls made.\<close>

definition observe :: "(int \<times> fstate) option \<Rightarrow> (int \<times> event list) option" where
  "observe x = map_option (\<lambda>(r, s'). (r, trace s')) x"

text \<open>The traces a returned call \<^verbatim>\<open>write_data(fd, buf, n)\<close> may leave, read off the text of
  the contract: every event is a \<^verbatim>\<open>write\<close> of the bytes at the current offset \<open>off\<close>, for
  the remaining \<open>n - off\<close> bytes capped at \<^verbatim>\<open>SSIZE_MAX\<close>; \<open>k\<close> bytes taken move the offset
  by \<open>k\<close>; \<^verbatim>\<open>EINTR\<close> leaves the offset where it is; any other error is the last event
  and makes the result \<open>0\<close>; the result is \<open>1\<close> when the loop condition fails.\<close>

fun wd_run :: "byte list \<Rightarrow> nat \<Rightarrow> nat \<Rightarrow> event list \<Rightarrow> int \<Rightarrow> bool" where
  "wd_run buf n off (Write d c r # evs) ok =
     (c = min (n - off) SSIZE_MAX \<and> d = take c (drop off buf) \<and>
      (case r of
         Accept k \<Rightarrow> k \<le> c \<and> (if off + k < n then wd_run buf n (off + k) evs ok
                                else evs = [] \<and> ok = 1)
       | Eintr \<Rightarrow> (if off < n then wd_run buf n off evs ok else evs = [] \<and> ok = 1)
       | Werr \<Rightarrow> evs = [] \<and> ok = 0))"
| "wd_run buf n off evs ok = False"

text \<open>The traces of the two chunk loops (with the closing \<^verbatim>\<open>fsync\<close>): a sequence of
  \<open>write_data\<close> traces for chunks of \<open>min bufsz filesz\<close> bytes, stopped by the first
  chunk that fails; in the random loop each chunk is preceded by the draw of its bytes.\<close>

inductive pl_run :: "byte list \<Rightarrow> nat \<Rightarrow> nat \<Rightarrow> event list \<Rightarrow> int \<Rightarrow> bool" where
  pl_done: "pl_run buf bufsz 0 [Fsync] 0"
| pl_fail: "0 < filesz \<Longrightarrow> wd_run buf (min bufsz filesz) 0 evs 0
            \<Longrightarrow> pl_run buf bufsz filesz evs (- 1)"
| pl_more: "0 < filesz \<Longrightarrow> wd_run buf (min bufsz filesz) 0 evs 1
            \<Longrightarrow> pl_run buf bufsz (filesz - min bufsz filesz) evs' r
            \<Longrightarrow> pl_run buf bufsz filesz (evs @ evs') r"

inductive rl_run :: "nat \<Rightarrow> event list \<Rightarrow> int \<Rightarrow> bool" where
  rl_done: "rl_run 0 [Fsync] 0"
| rl_fail: "0 < nbytes \<Longrightarrow> wd_run buf (min SPC_WIPE_BUFSIZE nbytes) 0 evs 0
            \<Longrightarrow> rl_run nbytes (Rand (min SPC_WIPE_BUFSIZE nbytes) # evs) (- 1)"
| rl_more: "0 < nbytes \<Longrightarrow> wd_run buf (min SPC_WIPE_BUFSIZE nbytes) 0 evs 1
            \<Longrightarrow> rl_run (nbytes - min SPC_WIPE_BUFSIZE nbytes) evs' r
            \<Longrightarrow> rl_run nbytes (Rand (min SPC_WIPE_BUFSIZE nbytes) # evs @ evs') r"

text \<open>The shape of the trace of a loop that completed (\<open>tail_ok\<close>: reads of the random
  source and writes that transfer \<open>n\<close> bytes with no failure, then \<^verbatim>\<open>fsync\<close>) or failed
  (\<open>tail_bad\<close>: the failed write is the last event), and of a whole pass: the \<^verbatim>\<open>lseek\<close>,
  returning 0, followed by such a tail, or a failed \<^verbatim>\<open>lseek\<close> alone.\<close>

definition tail_ok :: "nat \<Rightarrow> event list \<Rightarrow> bool" where
  "tail_ok n evs =
     (evs \<noteq> [] \<and> last evs = Fsync \<and> list_all is_data (butlast evs)
      \<and> \<not> list_ex failed evs \<and> wrote evs = n)"

definition tail_bad :: "event list \<Rightarrow> bool" where
  "tail_bad evs =
     (evs \<noteq> [] \<and> list_all is_data evs \<and> failed (last evs) \<and> \<not> list_ex failed (butlast evs))"

definition ok_seg :: "nat \<Rightarrow> event list \<Rightarrow> bool" where
  "ok_seg S seg = (case seg of Lseek r # rest \<Rightarrow> r = 0 \<and> tail_ok S rest | _ \<Rightarrow> False)"

definition bad_seg :: "event list \<Rightarrow> bool" where
  "bad_seg seg =
     (case seg of Lseek r # rest \<Rightarrow> (if r = 0 then tail_bad rest else rest = []) | _ \<Rightarrow> False)"

text \<open>A statement of the wipe behaves like a pass over \<open>S\<close> bytes; the trace of a run
  of \<open>n\<close> such statements, given as the list of the traces of the passes attempted: all
  \<open>n\<close> completed when the run returns 0, otherwise completed passes followed by the one
  that failed.\<close>

definition pass_like :: "nat \<Rightarrow> (wstate \<Rightarrow> (int \<times> wstate) option) \<Rightarrow> bool" where
  "pass_like S f =
     (\<forall>s buf r s' buf'. f (s, buf) = Some (r, s', buf') \<longrightarrow>
        (\<exists>seg. trace s' = trace s @ seg \<and> ((r = 0 \<and> ok_seg S seg) \<or> (r = - 1 \<and> bad_seg seg))))"

definition run_shape :: "nat \<Rightarrow> nat \<Rightarrow> event list list \<Rightarrow> int \<Rightarrow> bool" where
  "run_shape S n segs r =
     (if r = 0 then length segs = n \<and> list_all (ok_seg S) segs
      else r = - 1 \<and> segs \<noteq> [] \<and> length segs \<le> n
           \<and> list_all (ok_seg S) (butlast segs) \<and> bad_seg (last segs))"

text \<open>The statements of \<^verbatim>\<open>spc_fd_wipe\<close> with the \<^verbatim>\<open>for\<close> loops unrolled.\<close>

definition wipe_steps :: "env \<Rightarrow> nat \<Rightarrow> (wstate \<Rightarrow> (int \<times> wstate) option) list" where
  "wipe_steps E S =
     map (\<lambda>pass. rnd_step E S) [0..<4]
     @ [single_step E S (single_pats ! 5), single_step E S (single_pats ! 10)]
     @ map (\<lambda>pass. triple_step E S (triple_pats ! pass)) [0..<3]
     @ map (\<lambda>pass. single_step E S (single_pats ! pass)) [0..<length single_pats]
     @ map (\<lambda>pass. triple_step E S (triple_pats ! pass))
         [0..<length (concat triple_pats) div patternsz]
     @ map (\<lambda>pass. rnd_step E S) [0..<4]"

text \<open>The first \<open>n\<close> bytes of the endless repetition of a buffer \<open>B\<close>.\<close>

definition cyc :: "byte list \<Rightarrow> nat \<Rightarrow> byte list" where
  "cyc B n = map (\<lambda>i. B ! (i mod length B)) [0..<n]"

text \<open>Two environments that answer \<^verbatim>\<open>fstat\<close>, \<^verbatim>\<open>lseek\<close>, \<^verbatim>\<open>write\<close> and the random source
  alike (they may differ in the answers of \<^verbatim>\<open>fsync\<close> and in what happens to the file
  between calls), and two statements that behave alike on files with the same trace.\<close>

definition same_answers :: "env \<Rightarrow> env \<Rightarrow> bool" where
  "same_answers E E' =
     (fstat_ok E = fstat_ok E' \<and> lseek_ret E = lseek_ret E' \<and> write_ret E = write_ret E'
      \<and> rand_byte E = rand_byte E')"

definition step_sim ::
  "(wstate \<Rightarrow> (int \<times> wstate) option) \<Rightarrow> (wstate \<Rightarrow> (int \<times> wstate) option) \<Rightarrow> bool" where
  "step_sim f g =
     (\<forall>s t buf r s' buf'. f (s, buf) = Some (r, s', buf') \<and> trace s = trace t \<longrightarrow>
        (\<exists>t'. g (t, buf) = Some (r, t', buf') \<and> trace s' = trace t'))"

section \<open>Environments\<close>

text \<open>A \<^verbatim>\<open>write\<close> stalls when it is interrupted or takes no byte. In an environment with
  write progress every run of stalling answers is finite. In a good environment,
  moreover, no \<^verbatim>\<open>write\<close> and no \<^verbatim>\<open>lseek\<close> fails; there every statement of the wipe succeeds.\<close>

fun stalls :: "wres \<Rightarrow> bool" where
  "stalls Eintr = True"
| "stalls (Accept k) = (k = 0)"
| "stalls Werr = False"

definition write_progress :: "env \<Rightarrow> bool" where
  "write_progress E = (\<forall>t. \<exists>t'\<ge>t. \<not> stalls (write_ret E t'))"

definition good_env :: "env \<Rightarrow> bool" where
  "good_env E =
     (write_progress E \<and> (\<forall>t. write_ret E t \<noteq> Werr) \<and> (\<forall>t. lseek_ret E t = 0))"

definition succeeds :: "(wstate \<Rightarrow> (int \<times> wstate) option) \<Rightarrow> bool" where
  "succeeds f = (\<forall>st. \<exists>st'. f st = Some (0, st'))"

text \<open>A fresh file with the given content.\<close>

definition file_of :: "byte list \<Rightarrow> fstate" where
  "file_of c = \<lparr>trace = [], content = c, pos = 0\<rparr>"

text \<open>Every call succeeds at once; nobody else touches the file; the random source
  yields \<open>0x5a\<close>.\<close>

definition ideal_env :: env where
  "ideal_env =
     \<lparr>fstat_ok = (\<lambda>t. True), lseek_ret = (\<lambda>t. 0), write_ret = (\<lambda>t. Accept 4096),
      fsync_ret = (\<lambda>t. 0), rand_byte = (\<lambda>t i. 0x5a), ext = (\<lambda>t c. c)\<rparr>"

text \<open>The first \<^verbatim>\<open>write\<close> is interrupted, the second is short (one byte), the rest are
  complete; the state after \<open>write_data\<close> of three bytes there.\<close>

definition retry_env :: env where
  "retry_env =
     ideal_env\<lparr>write_ret := (\<lambda>t. if t = 0 then Eintr else if t = 1 then Accept 1 else Accept 4096)\<rparr>"

definition retry_final :: fstate where
  "retry_final =
     \<lparr>trace = [Write [1, 2, 3] 3 Eintr, Write [1, 2, 3] 3 (Accept 1), Write [2, 3] 2 (Accept 2)],
      content = [1, 2, 3], pos = 3\<rparr>"

text \<open>Every \<^verbatim>\<open>write\<close> fails with an error other than \<^verbatim>\<open>EINTR\<close>; the state after
  \<open>write_data\<close> of zero bytes, and after the wipe of a one-byte file, there.\<close>

definition werr_env :: env where
  "werr_env = ideal_env\<lparr>write_ret := (\<lambda>t. Werr)\<rparr>"

definition werr_final :: fstate where
  "werr_final = \<lparr>trace = [Write [] 0 Werr], content = [], pos = 0\<rparr>"

definition write_fail_final :: fstate where
  "write_fail_final =
     \<lparr>trace = [Fstat (Some 1), Lseek 0, Rand 1, Write [0x5a] 1 Werr],
      content = [0x41], pos = 0\<rparr>"

text \<open>Every \<^verbatim>\<open>write\<close> is interrupted.\<close>

definition eintr_env :: env where
  "eintr_env = ideal_env\<lparr>write_ret := (\<lambda>t. Eintr)\<rparr>"

text \<open>\<^verbatim>\<open>fstat\<close> fails; the state after the wipe of a one-byte file.\<close>

definition stat_fail_env :: env where
  "stat_fail_env = ideal_env\<lparr>fstat_ok := (\<lambda>t. False)\<rparr>"

definition stat_fail_final :: fstate where
  "stat_fail_final = \<lparr>trace = [Fstat None], content = [0x41], pos = 0\<rparr>"

text \<open>The sixth call, the \<^verbatim>\<open>lseek\<close> of the second pass over a one-byte file, fails; the
  state after the wipe.\<close>

definition seek_fail_env :: env where
  "seek_fail_env = ideal_env\<lparr>lseek_ret := (\<lambda>t. if t = 5 then - 1 else 0)\<rparr>"

definition seek_fail_final :: fstate where
  "seek_fail_final =
     \<lparr>trace = [Fstat (Some 1), Lseek 0, Rand 1, Write [0x5a] 1 (Accept 1), Fsync, Lseek (- 1)],
      content = [0x5a], pos = 1\<rparr>"

text \<open>Every \<^verbatim>\<open>fsync\<close> fails; the state after a random pass over one byte.\<close>

definition flush_fail_env :: env where
  "flush_fail_env = ideal_env\<lparr>fsync_ret := (\<lambda>t. - 1)\<rparr>"

definition flush_fail_final :: fstate where
  "flush_fail_final =
     \<lparr>trace = [Lseek 0, Rand 1, Write [0x5a] 1 (Accept 1), Fsync], content = [0x5a], pos = 1\<rparr>"

section \<open>The pass plan of the specification\<close>

text \<open>The specification's pass plan (section 4.3), written out: a pass descriptor is
  either \<open>Random\<close> or \<open>Pattern\<close> with its repeating unit.\<close>

datatype pass_desc = Random | Pattern "byte list"

definition spec_plan :: "pass_desc list" where
  "spec_plan =
     [Random, Random, Random, Random,
      Pattern [0x55], Pattern [0xAA],
      Pattern [0x92, 0x49, 0x24], Pattern [0x49, 0x24, 0x92], Pattern [0x24, 0x92, 0x49],
      Pattern [0x00], Pattern [0x11], Pattern [0x22], Pattern [0x33],
      Pattern [0x44], Pattern [0x55], Pattern [0x66], Pattern [0x77],
      Pattern [0x88], Pattern [0x99], Pattern [0xAA], Pattern [0xBB],
      Pattern [0xCC], Pattern [0xDD], Pattern [0xEE], Pattern [0xFF],
      Pattern [0x92, 0x49, 0x24], Pattern [0x49, 0x24, 0x92], Pattern [0x24, 0x92, 0x49],
      Pattern [0x6D, 0xB6, 0xDB], Pattern [0xB6, 0xDB, 0x6D], Pattern [0xDB, 0x6D, 0xB6],
      Random, Random, Random, Random]"

text \<open>The specification's buffer preparation: the pattern is tiled to fill as much of
  the 4096-byte buffer as divides evenly by the pattern's length.\<close>

definition spec_tile :: "byte list \<Rightarrow> byte list \<Rightarrow> byte list" where
  "spec_tile buf p =
     concat (replicate (SPC_WIPE_BUFSIZE div length p) p)
     @ drop (length p * (SPC_WIPE_BUFSIZE div length p)) buf"

fun spec_exec_pass :: "env \<Rightarrow> nat \<Rightarrow> pass_desc \<Rightarrow> wstate \<Rightarrow> (int \<times> wstate) option" where
  "spec_exec_pass E S Random (s, buf) =
     map_option (\<lambda>(r, s'). (r, s', buf)) (random_pass E s S)"
| "spec_exec_pass E S (Pattern p) (s, buf) =
     map_option (\<lambda>(r, s'). (r, s', spec_tile buf p))
       (pattern_pass E s (spec_tile buf p) (length p * (SPC_WIPE_BUFSIZE div length p)) S)"

text \<open>The specification's orchestrator: the passes of the plan in order, aborting on
  the first pass failure and returning it.\<close>

fun spec_run_plan :: "env \<Rightarrow> nat \<Rightarrow> pass_desc list \<Rightarrow> wstate \<Rightarrow> (int \<times> wstate) option" where
  "spec_run_plan E S [] st = Some (0, st)"
| "spec_run_plan E S (d # ds) st =
     (case spec_exec_pass E S d st of
        None \<Rightarrow> None
      | Some (r, st') \<Rightarrow> if r \<noteq> 0 then Some (r, st') else spec_run_plan E S ds st')"

definition spec_wipe :: "env \<Rightarrow> fstate \<Rightarrow> (int \<times> fstate) option" where
  "spec_wipe E s =
     (case sys_fstat E s of
        (None, s0) \<Rightarrow> Some (- 1, s0)
      | (Some S, s0) \<Rightarrow>
          if S = 0 then Some (0, s0)
          else map_option (\<lambda>(r, s', buf). (r, s'))
                 (spec_run_plan E S spec_plan (s0, replicate SPC_WIPE_BUFSIZE 0)))"

text \<open>A statement of the program does what the specification's pass does, on every
  state whose buffer has the size of the program's buffer, and keeps that size.\<close>

definition step_refines ::
  "env \<Rightarrow> nat \<Rightarrow> (wstate \<Rightarrow> (int \<times> wstate) option) \<Rightarrow> pass_desc \<Rightarrow> bool" where
  "step_refines E S f d =
     (\<forall>st. length (snd st) = SPC_WIPE_BUFSIZE \<longrightarrow>
        f st = spec_exec_pass E S d st
        \<and> (\<forall>r st'. f st = Some (r, st') \<longrightarrow>
              length (snd st') = SPC_WIPE_BUFSIZE \<and> (r = 0 \<or> r = - 1)))"

section \<open>Properties\<close>

subsection \<open>The trace of a call of write_data\<close>

lemma sys_write_cases:
  assumes "sys_write E s d c = (r, s1)"
  shows "trace s1 = trace s @ [Write d c r]"
    and "r = (case write_ret E (tick s) of Accept k \<Rightarrow> Accept (min k c) | x \<Rightarrow> x)"
    and "pos s1 = pos s + wrote [Write d c r]"
  using assms by (auto simp: sys_write_def log_def Let_def split: wres.splits)

lemma wd_run_step:
  assumes "c = min (n - off) SSIZE_MAX" and "d = take c (drop off buf)"
    and "case r of
           Accept k \<Rightarrow> k \<le> c \<and> (if off + k < n then wd_run buf n (off + k) evs ok
                                  else evs = [] \<and> ok = 1)
         | Eintr \<Rightarrow> (if off < n then wd_run buf n off evs ok else evs = [] \<and> ok = 1)
         | Werr \<Rightarrow> evs = [] \<and> ok = 0"
  shows "wd_run buf n off (Write d c r # evs) ok"
  using assms by (cases r) simp_all

lemma write_loop_run_aux:
  assumes a: "write_loop E s buf n wr = Some y"
  shows "\<exists>evs. trace (snd y) = trace s @ evs \<and> wd_run buf n wr evs (fst y)"
proof (rule write_loop.raw_induct
    [where P = "\<lambda>E s buf n wr y. \<exists>evs. trace (snd y) = trace s @ evs \<and> wd_run buf n wr evs (fst y)",
      OF _ a], goal_cases)
  case (1 wl E s buf n wr y)
  note IH = 1(1)
  define c where "c = (if SSIZE_MAX < n - wr then SSIZE_MAX else n - wr)"
  define d where "d = take c (drop wr buf)"
  obtain r s1 where sw: "sys_write E s d c = (r, s1)" by (cases "sys_write E s d c")
  note tr = sys_write_cases(1)[OF sw]
  have c_min: "c = min (n - wr) SSIZE_MAX" by (simp add: c_def)
  note step = wd_run_step[OF c_min d_def]
  from sys_write_cases(2)[OF sw] have r_le: "\<And>k. r = Accept k \<Longrightarrow> k \<le> c"
    by (auto split: wres.splits)
  from 1(2) sw have body:
    "(case r of
        Accept k \<Rightarrow> if wr + k < n then wl E s1 buf n (wr + k) else Some (1, s1)
      | Eintr \<Rightarrow> if wr < n then wl E s1 buf n wr else Some (1, s1)
      | Werr \<Rightarrow> Some (0, s1)) = Some y"
    by (simp add: c_def d_def Let_def)
  show ?case
  proof (cases r)
    case (Accept k)
    show ?thesis
    proof (cases "wr + k < n")
      case True
      with body Accept have "wl E s1 buf n (wr + k) = Some y" by simp
      from IH[OF this] obtain evs where
        e: "trace (snd y) = trace s1 @ evs" "wd_run buf n (wr + k) evs (fst y)" by blast
      have "wd_run buf n wr (Write d c r # evs) (fst y)"
        by (rule step) (simp add: Accept True r_le e)
      then show ?thesis by (intro exI[of _ "Write d c r # evs"]) (simp add: e tr del: wd_run.simps)
    next
      case False
      with body Accept have y: "y = (1, s1)" by simp
      have "wd_run buf n wr [Write d c r] (fst y)"
        by (rule step) (simp add: Accept False r_le y)
      then show ?thesis by (intro exI[of _ "[Write d c r]"]) (simp add: y tr del: wd_run.simps)
    qed
  next
    case Eintr
    show ?thesis
    proof (cases "wr < n")
      case True
      with body Eintr have "wl E s1 buf n wr = Some y" by simp
      from IH[OF this] obtain evs where
        e: "trace (snd y) = trace s1 @ evs" "wd_run buf n wr evs (fst y)" by blast
      have "wd_run buf n wr (Write d c r # evs) (fst y)"
        by (rule step) (simp add: Eintr True e)
      then show ?thesis by (intro exI[of _ "Write d c r # evs"]) (simp add: e tr del: wd_run.simps)
    next
      case False
      with body Eintr have y: "y = (1, s1)" by simp
      have "wd_run buf n wr [Write d c r] (fst y)"
        by (rule step) (simp add: Eintr False y)
      then show ?thesis by (intro exI[of _ "[Write d c r]"]) (simp add: y tr del: wd_run.simps)
    qed
  next
    case Werr
    with body have y: "y = (0, s1)" by simp
    have "wd_run buf n wr [Write d c r] (fst y)"
      by (rule step) (simp add: Werr y)
    then show ?thesis by (intro exI[of _ "[Write d c r]"]) (simp add: y tr del: wd_run.simps)
  qed
qed

lemma wd_run_ok: "wd_run buf n off evs ok \<Longrightarrow> ok = 0 \<or> ok = 1"
  by (induction buf n off evs ok rule: wd_run.induct) (auto split: wres.splits if_splits)

lemma wd_run_wrote_ok:
  "wd_run buf n off evs ok \<Longrightarrow> off \<le> n \<Longrightarrow> ok = 1 \<Longrightarrow> off + wrote evs = n"
  by (induction buf n off evs ok rule: wd_run.induct) (auto split: wres.splits if_splits)

lemma wd_run_wrote_fail:
  "wd_run buf n off evs ok \<Longrightarrow> off < n \<Longrightarrow> ok = 0 \<Longrightarrow> off + wrote evs < n"
  by (induction buf n off evs ok rule: wd_run.induct) (auto split: wres.splits if_splits)

lemma wd_run_out:
  "wd_run buf n off evs ok \<Longrightarrow> off \<le> n \<Longrightarrow> ok = 1 \<Longrightarrow> out evs = take (n - off) (drop off buf)"
proof (induction buf n off evs ok rule: wd_run.induct)
  case (1 buf n off d c r evs ok)
  from "1.prems"(1) have c: "c = min (n - off) SSIZE_MAX" and d: "d = take c (drop off buf)"
    by auto
  show ?case
  proof (cases r)
    case (Accept k)
    with "1.prems"(1) have kc: "k \<le> c" by auto
    with c have kn: "k \<le> n - off" by simp
    from kc d have hd: "take k d = take k (drop off buf)" by (simp add: min_def)
    show ?thesis
    proof (cases "off + k < n")
      case True
      with "1.prems" Accept have "wd_run buf n (off + k) evs ok" by auto
      with "1.IH"(1)[OF Accept True] "1.prems" True
      have "out evs = take (n - (off + k)) (drop (off + k) buf)" by simp
      then have "out evs = take (n - off - k) (drop k (drop off buf))"
        by (simp add: add.commute)
      with hd have "out (Write d c r # evs) = take (k + (n - off - k)) (drop off buf)"
        by (simp add: Accept take_add)
      moreover from kn True have "k + (n - off - k) = n - off" by simp
      ultimately show ?thesis by simp
    next
      case False
      with "1.prems" Accept have "evs = []" by auto
      moreover from False kn "1.prems"(2) have "k = n - off" by simp
      ultimately show ?thesis using hd by (simp add: Accept)
    qed
  next
    case Eintr
    with 1 show ?thesis by (auto split: if_splits)
  next
    case Werr
    with 1 show ?thesis by simp
  qed
qed simp_all

subsection \<open>The reliable writer\<close>

text \<open>
  Claim C3, as amended. For every environment, file, buffer and byte count \<open>nbytes > 0\<close>,
  a call of \<open>write_data\<close> that returns leaves a trace of the form \<open>wd_run\<close> describes (each
  \<^verbatim>\<open>write\<close> is issued at the current buffer offset for the remaining bytes, capped at
  \<^verbatim>\<open>SSIZE_MAX\<close>; the offset advances by what was written; \<^verbatim>\<open>EINTR\<close> is retried at the same
  offset; any other error ends the call with failure), returns \<open>1\<close> or \<open>0\<close>, and returns
  \<open>1\<close> if and only if exactly \<open>nbytes\<close> bytes were written in total.
\<close>

theorem write_data_contract:
  assumes "write_data E s buf nbytes = Some (ok, s')" and "0 < nbytes"
  shows "trace s' = trace s @ new_events s s'
       \<and> wd_run buf nbytes 0 (new_events s s') ok
       \<and> (ok = 1 \<or> ok = 0)
       \<and> (ok = 1 \<longleftrightarrow> wrote (new_events s s') = nbytes)"
proof -
  from write_loop_run_aux[OF assms(1)[unfolded write_data_def]]
  obtain evs where tr: "trace s' = trace s @ evs" and run: "wd_run buf nbytes 0 evs ok"
    by auto
  from tr have ne: "new_events s s' = evs" by (simp add: new_events_def)
  from wd_run_ok[OF run] have ok: "ok = 1 \<or> ok = 0" by blast
  have "ok = 1 \<longleftrightarrow> wrote evs = nbytes"
  proof
    assume "ok = 1"
    with wd_run_wrote_ok[OF run] show "wrote evs = nbytes" by simp
  next
    assume w: "wrote evs = nbytes"
    show "ok = 1"
    proof (rule ccontr)
      assume "ok \<noteq> 1"
      with ok have "ok = 0" by simp
      from wd_run_wrote_fail[OF run assms(2) this] w show False by simp
    qed
  qed
  with tr run ok ne show ?thesis by simp
qed

theorem write_data_contract_witness:
  "write_data retry_env (file_of []) [1, 2, 3] 3 = Some (1, retry_final)
   \<and> wrote (new_events (file_of []) retry_final) = 3"
proof -
  have run: "write_data retry_env (file_of []) [1, 2, 3] 3 = Some (1, retry_final)"
    by (simp add: write_data_def write_loop.simps retry_env_def ideal_env_def file_of_def
        retry_final_def sys_write_def log_def tick_def overwrite_def SSIZE_MAX_def)
  from write_data_contract[OF run] run show ?thesis by simp
qed

text \<open>
  Claim C3, as stated, fails for \<open>nbytes = 0\<close>: the loop body runs once, and when that
  \<^verbatim>\<open>write\<close> of zero bytes fails the call returns \<open>0\<close>, although exactly \<open>nbytes = 0\<close> bytes
  have been written.
\<close>

theorem write_data_zero_counterexample:
  "write_data werr_env (file_of []) [] 0 = Some (0, werr_final)
   \<and> wrote (new_events (file_of []) werr_final) = 0"
  by (simp add: write_data_def write_loop.simps werr_env_def ideal_env_def file_of_def
      werr_final_def sys_write_def log_def tick_def new_events_def)

subsection \<open>The traces of the chunk loops and of the passes\<close>

lemma write_data_run:
  assumes "write_data E s buf n = Some (ok, s')"
  shows "\<exists>evs. trace s' = trace s @ evs \<and> wd_run buf n 0 evs ok \<and> (ok = 0 \<or> ok = 1)"
  using write_loop_run_aux[OF assms[unfolded write_data_def]] wd_run_ok by fastforce

lemma sys_fsync_trace: "sys_fsync E s = (r, s') \<Longrightarrow> trace s' = trace s @ [Fsync]"
  by (auto simp: sys_fsync_def log_def)

lemma spc_rand_trace: "spc_rand E s n = (b, s') \<Longrightarrow> trace s' = trace s @ [Rand n]"
  by (auto simp: spc_rand_def log_def)

lemma sys_lseek_trace: "sys_lseek E s = (r, s') \<Longrightarrow> trace s' = trace s @ [Lseek r]"
  by (auto simp: sys_lseek_def log_def Let_def)

lemma pattern_loop_run_aux:
  assumes a: "pattern_loop E s buf bufsz filesz = Some y"
  shows "\<exists>evs. trace (snd y) = trace s @ evs \<and> pl_run buf bufsz filesz evs (fst y)"
proof (rule pattern_loop.raw_induct
    [where P = "\<lambda>E s buf bufsz filesz y.
        \<exists>evs. trace (snd y) = trace s @ evs \<and> pl_run buf bufsz filesz evs (fst y)",
      OF _ a], goal_cases)
  case (1 pl E s buf bufsz filesz y)
  note IH = 1(1)
  show ?case
  proof (cases "0 < filesz")
    case False
    with 1(2) obtain r s' where "sys_fsync E s = (r, s')" "y = (0, s')"
      by (auto split: prod.splits)
    with sys_fsync_trace[OF this(1)] False show ?thesis
      by (auto intro!: exI[of _ "[Fsync]"] pl_done)
  next
    case True
    define tw where "tw = min bufsz filesz"
    have tw: "(if bufsz < filesz then bufsz else filesz) = tw" by (simp add: tw_def min_def)
    from 1(2) True obtain ok s1 where wd: "write_data E s buf tw = Some (ok, s1)"
      and rest: "(if ok = 0 then Some (- 1, s1) else pl E s1 buf bufsz (filesz - tw)) = Some y"
      by (auto simp: tw Let_def split: option.splits)
    from write_data_run[OF wd] obtain evs where
      e: "trace s1 = trace s @ evs" "wd_run buf tw 0 evs ok" "ok = 0 \<or> ok = 1" by blast
    show ?thesis
    proof (cases "ok = 0")
      case True
      with rest have "y = (- 1, s1)" by simp
      with e True \<open>0 < filesz\<close> show ?thesis
        by (auto intro!: exI[of _ evs] pl_fail simp: tw_def)
    next
      case False
      with rest have "pl E s1 buf bufsz (filesz - tw) = Some y" by simp
      from IH[OF this] obtain evs' where
        e': "trace (snd y) = trace s1 @ evs'" "pl_run buf bufsz (filesz - tw) evs' (fst y)"
        by blast
      from False e have "wd_run buf tw 0 evs 1" by auto
      with e e' \<open>0 < filesz\<close> show ?thesis
        by (auto intro!: exI[of _ "evs @ evs'"] pl_more simp: tw_def)
    qed
  qed
qed

lemma random_loop_run_aux:
  assumes a: "random_loop E s nbytes = Some y"
  shows "\<exists>evs. trace (snd y) = trace s @ evs \<and> rl_run nbytes evs (fst y)"
proof (rule random_loop.raw_induct
    [where P = "\<lambda>E s nbytes y. \<exists>evs. trace (snd y) = trace s @ evs \<and> rl_run nbytes evs (fst y)",
      OF _ a], goal_cases)
  case (1 rl E s nbytes y)
  note IH = 1(1)
  show ?case
  proof (cases "0 < nbytes")
    case False
    with 1(2) obtain r s' where "sys_fsync E s = (r, s')" "y = (0, s')"
      by (auto split: prod.splits)
    with sys_fsync_trace[OF this(1)] False show ?thesis
      by (auto intro!: exI[of _ "[Fsync]"] rl_done)
  next
    case True
    define tw where "tw = min SPC_WIPE_BUFSIZE nbytes"
    have tw: "(if SPC_WIPE_BUFSIZE < nbytes then SPC_WIPE_BUFSIZE else nbytes) = tw"
      by (simp add: tw_def min_def)
    obtain buf s0 where rnd: "spc_rand E s tw = (buf, s0)" by (cases "spc_rand E s tw")
    from 1(2) True rnd obtain ok s1 where wd: "write_data E s0 buf tw = Some (ok, s1)"
      and rest: "(if ok = 0 then Some (- 1, s1) else rl E s1 (nbytes - tw)) = Some y"
      by (auto simp: tw Let_def split: option.splits)
    note t0 = spc_rand_trace[OF rnd]
    from write_data_run[OF wd] obtain evs where
      e: "trace s1 = trace s0 @ evs" "wd_run buf tw 0 evs ok" "ok = 0 \<or> ok = 1" by blast
    show ?thesis
    proof (cases "ok = 0")
      case True
      with rest have "y = (- 1, s1)" by simp
      with e t0 True \<open>0 < nbytes\<close> show ?thesis
        by (auto intro!: exI[of _ "Rand tw # evs"] rl_fail simp: tw_def)
    next
      case False
      with rest have "rl E s1 (nbytes - tw) = Some y" by simp
      from IH[OF this] obtain evs' where
        e': "trace (snd y) = trace s1 @ evs'" "rl_run (nbytes - tw) evs' (fst y)"
        by blast
      from False e have "wd_run buf tw 0 evs 1" by auto
      with e e' t0 \<open>0 < nbytes\<close> show ?thesis
        by (auto intro!: exI[of _ "Rand tw # evs @ evs'"] rl_more simp: tw_def)
    qed
  qed
qed

lemma wrote_append: "wrote (xs @ ys) = wrote xs + wrote ys"
  by (induction xs rule: wrote.induct) simp_all

lemma out_append: "out (xs @ ys) = out xs @ out ys"
  by (induction xs rule: out.induct) simp_all

lemma wd_run_data: "wd_run buf n off evs ok \<Longrightarrow> evs \<noteq> [] \<and> list_all is_data evs"
  by (induction buf n off evs ok rule: wd_run.induct) (auto split: wres.splits if_splits)

lemma wd_run_not_failed: "wd_run buf n off evs ok \<Longrightarrow> ok = 1 \<Longrightarrow> \<not> list_ex failed evs"
  by (induction buf n off evs ok rule: wd_run.induct) (auto split: wres.splits if_splits)

lemma wd_run_failed:
  "wd_run buf n off evs ok \<Longrightarrow> ok = 0 \<Longrightarrow> failed (last evs) \<and> \<not> list_ex failed (butlast evs)"
  by (induction buf n off evs ok rule: wd_run.induct) (auto split: wres.splits if_splits)

lemma tail_ok_append:
  assumes "list_all is_data xs" "\<not> list_ex failed xs" "tail_ok m ys"
  shows "tail_ok (wrote xs + m) (xs @ ys)"
  using assms by (auto simp: tail_ok_def wrote_append butlast_append)

lemma tail_bad_append:
  assumes "list_all is_data xs" "\<not> list_ex failed xs" "tail_bad ys"
  shows "tail_bad (xs @ ys)"
  using assms by (auto simp: tail_bad_def butlast_append)

lemma tail_bad_wd: "wd_run buf n off evs 0 \<Longrightarrow> tail_bad evs"
  using wd_run_data[of buf n off evs 0] wd_run_failed[of buf n off evs 0]
  by (simp add: tail_bad_def)

lemma pl_run_tail:
  "pl_run buf bufsz filesz evs r \<Longrightarrow> (r = 0 \<and> tail_ok filesz evs) \<or> (r = - 1 \<and> tail_bad evs)"
proof (induction rule: pl_run.induct)
  case (pl_done buf bufsz)
  show ?case by (simp add: tail_ok_def)
next
  case (pl_fail filesz buf bufsz evs)
  then show ?case by (simp add: tail_bad_wd)
next
  case (pl_more filesz buf bufsz evs evs' r)
  let ?tw = "min bufsz filesz"
  from wd_run_data[OF pl_more(2)] wd_run_not_failed[OF pl_more(2)]
  have d: "list_all is_data evs" "\<not> list_ex failed evs" by simp_all
  from wd_run_wrote_ok[OF pl_more(2)] have w: "wrote evs = ?tw" by simp
  from pl_more.IH show ?case
  proof
    assume "r = 0 \<and> tail_ok (filesz - ?tw) evs'"
    with tail_ok_append[OF d, of "filesz - ?tw" evs'] w show ?thesis by simp
  next
    assume "r = - 1 \<and> tail_bad evs'"
    with tail_bad_append[OF d] show ?thesis by simp
  qed
qed

lemma rl_run_tail:
  "rl_run nbytes evs r \<Longrightarrow> (r = 0 \<and> tail_ok nbytes evs) \<or> (r = - 1 \<and> tail_bad evs)"
proof (induction rule: rl_run.induct)
  case rl_done
  show ?case by (simp add: tail_ok_def)
next
  case (rl_fail nbytes buf evs)
  let ?tw = "min SPC_WIPE_BUFSIZE nbytes"
  from tail_bad_append[of "[Rand ?tw]" evs] tail_bad_wd[OF rl_fail(2)]
  show ?case by simp
next
  case (rl_more nbytes buf evs evs' r)
  let ?tw = "min SPC_WIPE_BUFSIZE nbytes"
  from wd_run_data[OF rl_more(2)] wd_run_not_failed[OF rl_more(2)]
  have d: "list_all is_data (Rand ?tw # evs)" "\<not> list_ex failed (Rand ?tw # evs)" by simp_all
  from wd_run_wrote_ok[OF rl_more(2)] have w: "wrote (Rand ?tw # evs) = ?tw" by simp
  from rl_more.IH show ?case
  proof
    assume "r = 0 \<and> tail_ok (nbytes - ?tw) evs'"
    with tail_ok_append[OF d, of "nbytes - ?tw" evs'] w show ?thesis by simp
  next
    assume "r = - 1 \<and> tail_bad evs'"
    with tail_bad_append[OF d] show ?thesis by simp
  qed
qed

lemma random_pass_seg:
  assumes "random_pass E s n = Some (r, s')"
  shows "\<exists>seg. trace s' = trace s @ seg \<and> ((r = 0 \<and> ok_seg n seg) \<or> (r = - 1 \<and> bad_seg seg))"
proof -
  obtain x s1 where ls: "sys_lseek E s = (x, s1)" by (cases "sys_lseek E s")
  note t1 = sys_lseek_trace[OF ls]
  show ?thesis
  proof (cases "x = 0")
    case False
    with assms ls have "r = - 1" "s' = s1" by (simp_all add: random_pass_def)
    with t1 False show ?thesis by (intro exI[of _ "[Lseek x]"]) (simp add: bad_seg_def)
  next
    case True
    with assms ls have "random_loop E s1 n = Some (r, s')" by (simp add: random_pass_def)
    from random_loop_run_aux[OF this] obtain evs where
      e: "trace s' = trace s1 @ evs" "rl_run n evs r" by auto
    from rl_run_tail[OF e(2)] e(1) t1 True show ?thesis
      by (intro exI[of _ "Lseek 0 # evs"]) (auto simp: ok_seg_def bad_seg_def)
  qed
qed

lemma pattern_pass_seg:
  assumes "pattern_pass E s buf bufsz n = Some (r, s')" and "0 < bufsz"
  shows "\<exists>seg. trace s' = trace s @ seg \<and> ((r = 0 \<and> ok_seg n seg) \<or> (r = - 1 \<and> bad_seg seg))"
proof -
  obtain x s1 where ls: "sys_lseek E s = (x, s1)" by (cases "sys_lseek E s")
  note t1 = sys_lseek_trace[OF ls]
  show ?thesis
  proof (cases "x = 0")
    case False
    with assms ls have "r = - 1" "s' = s1" by (simp_all add: pattern_pass_def)
    with t1 False show ?thesis by (intro exI[of _ "[Lseek x]"]) (simp add: bad_seg_def)
  next
    case True
    with assms ls have "pattern_loop E s1 buf bufsz n = Some (r, s')"
      by (simp add: pattern_pass_def)
    from pattern_loop_run_aux[OF this] obtain evs where
      e: "trace s' = trace s1 @ evs" "pl_run buf bufsz n evs r" by auto
    from pl_run_tail[OF e(2)] e(1) t1 True show ?thesis
      by (intro exI[of _ "Lseek 0 # evs"]) (auto simp: ok_seg_def bad_seg_def)
  qed
qed

subsection \<open>The statements of the wipe in sequence\<close>

lemma rnd_step_like: "pass_like S (rnd_step E S)"
  unfolding pass_like_def rnd_step_def
  by (auto dest!: random_pass_seg)

lemma bufsize_pos: "0 < SPC_WIPE_BUFSIZE"
  by (simp add: SPC_WIPE_BUFSIZE_def)

lemma patternsz_eq: "patternsz = 3"
  by (simp add: patternsz_def triple_pats_def)

lemma triple_bufsz: "patternsz * (SPC_WIPE_BUFSIZE div patternsz) = 4095"
  by (simp add: patternsz_eq SPC_WIPE_BUFSIZE_def)

lemma single_step_like: "pass_like S (single_step E S c)"
  unfolding pass_like_def single_step_def Let_def
  by (auto dest!: pattern_pass_seg[OF _ bufsize_pos])

lemma triple_step_like: "pass_like S (triple_step E S p)"
  unfolding pass_like_def triple_step_def Let_def triple_bufsz
  by (auto dest!: pattern_pass_seg)

lemma seq_shape:
  assumes "\<forall>f \<in> set fs. pass_like S f" and "seq fs (s, buf) = Some (r, s', buf')"
  shows "\<exists>segs. trace s' = trace s @ concat segs \<and> run_shape S (length fs) segs r"
  using assms
proof (induction fs arbitrary: s buf)
  case Nil
  then show ?case by (intro exI[of _ "[]"]) (simp add: run_shape_def)
next
  case (Cons f fs)
  from Cons.prems(2) obtain r1 s1 buf1 where f: "f (s, buf) = Some (r1, s1, buf1)"
    and rest: "(if r1 = - 1 then Some (- 1, s1, buf1) else seq fs (s1, buf1)) = Some (r, s', buf')"
    by (auto split: option.splits)
  from Cons.prems(1) f obtain seg where
    seg: "trace s1 = trace s @ seg" "(r1 = 0 \<and> ok_seg S seg) \<or> (r1 = - 1 \<and> bad_seg seg)"
    unfolding pass_like_def by (metis list.set_intros(1))
  show ?case
  proof (cases "r1 = - 1")
    case True
    with rest seg show ?thesis
      by (intro exI[of _ "[seg]"]) (auto simp: run_shape_def)
  next
    case False
    with rest have "seq fs (s1, buf1) = Some (r, s', buf')" by simp
    from Cons.IH[OF _ this] Cons.prems(1) obtain segs where
      segs: "trace s' = trace s1 @ concat segs" "run_shape S (length fs) segs r" by auto
    from False seg(2) have "ok_seg S seg" by auto
    with segs seg(1) show ?thesis
      by (intro exI[of _ "seg # segs"]) (auto simp: run_shape_def split: if_splits)
  qed
qed

lemma seq_ret: "seq fs st = Some (r, st') \<Longrightarrow> r = 0 \<or> r = - 1"
  by (induction fs arbitrary: st) (auto split: option.splits if_splits)

lemma seq_append:
  "seq (fs @ gs) st =
     (case seq fs st of None \<Rightarrow> None
      | Some (r, st') \<Rightarrow> if r = - 1 then Some (- 1, st') else seq gs st')"
  by (induction fs arbitrary: st) (auto split: option.splits)

lemma seq_nested: "seq (seq fs # gs) st = seq (fs @ gs) st"
  by (auto simp: seq_append dest: seq_ret split: option.splits)

lemma seq_for_pass: "seq (for_pass is body # gs) st = seq (map body is @ gs) st"
  by (simp only: for_pass_def seq_nested)

lemma seq_for_pass_mid:
  "seq (fs @ for_pass is body # gs) st = seq (fs @ map body is @ gs) st"
  by (simp only: seq_append[of fs] seq_for_pass)

lemma wipe_seq_flat:
  "seq [for_pass [0..<4] (\<lambda>pass. rnd_step E S),
        single_step E S (single_pats ! 5),
        single_step E S (single_pats ! 10),
        for_pass [0..<3] (\<lambda>pass. triple_step E S (triple_pats ! pass)),
        for_pass [0..<length single_pats] (\<lambda>pass. single_step E S (single_pats ! pass)),
        for_pass [0..<length (concat triple_pats) div patternsz]
          (\<lambda>pass. triple_step E S (triple_pats ! pass)),
        for_pass [0..<4] (\<lambda>pass. rnd_step E S)] st
   = seq (wipe_steps E S) st"
proof -
  let ?r = "\<lambda>pass::nat. rnd_step E S"
  let ?s = "\<lambda>pass. single_step E S (single_pats ! pass)"
  let ?t = "\<lambda>pass. triple_step E S (triple_pats ! pass)"
  let ?A = "[0..<4]" and ?B = "[0..<3]" and ?C = "[0..<length single_pats]"
    and ?D = "[0..<length (concat triple_pats) div patternsz]"
  let ?m1 = "map ?r ?A @ [?s 5, ?s 10]"
  let ?m2 = "?m1 @ map ?t ?B"
  let ?m3 = "?m2 @ map ?s ?C"
  let ?m4 = "?m3 @ map ?t ?D"
  have "seq [for_pass ?A ?r, ?s 5, ?s 10, for_pass ?B ?t, for_pass ?C ?s, for_pass ?D ?t,
             for_pass ?A ?r] st
        = seq (map ?r ?A @ [?s 5, ?s 10, for_pass ?B ?t, for_pass ?C ?s, for_pass ?D ?t,
             for_pass ?A ?r]) st"
    by (rule seq_for_pass)
  also have "\<dots> = seq (?m1 @ for_pass ?B ?t # [for_pass ?C ?s, for_pass ?D ?t, for_pass ?A ?r]) st"
    by (simp only: append_assoc append.simps)
  also have "\<dots> = seq (?m1 @ map ?t ?B @ [for_pass ?C ?s, for_pass ?D ?t, for_pass ?A ?r]) st"
    by (rule seq_for_pass_mid)
  also have "\<dots> = seq (?m2 @ for_pass ?C ?s # [for_pass ?D ?t, for_pass ?A ?r]) st"
    by (simp only: append_assoc append.simps)
  also have "\<dots> = seq (?m2 @ map ?s ?C @ [for_pass ?D ?t, for_pass ?A ?r]) st"
    by (rule seq_for_pass_mid)
  also have "\<dots> = seq (?m3 @ for_pass ?D ?t # [for_pass ?A ?r]) st"
    by (simp only: append_assoc append.simps)
  also have "\<dots> = seq (?m3 @ map ?t ?D @ [for_pass ?A ?r]) st"
    by (rule seq_for_pass_mid)
  also have "\<dots> = seq (?m4 @ for_pass ?A ?r # []) st"
    by (simp only: append_assoc append.simps)
  also have "\<dots> = seq (?m4 @ map ?r ?A @ []) st"
    by (rule seq_for_pass_mid)
  also have "\<dots> = seq (wipe_steps E S) st"
    by (simp only: wipe_steps_def append_assoc append.simps append_Nil2)
  finally show ?thesis .
qed

lemma wipe_steps_like: "\<forall>f \<in> set (wipe_steps E S). pass_like S f"
  by (auto simp: wipe_steps_def rnd_step_like single_step_like triple_step_like)

lemma wipe_steps_length: "length (wipe_steps E S) = 35"
  by (simp add: wipe_steps_def single_pats_def triple_pats_def patternsz_def)

lemma sys_fstat_cases:
  "sys_fstat E s = (if fstat_ok E (tick s) then (Some (length (content s)), log E (Fstat (Some (length (content s)))) s)
                    else (None, log E (Fstat None) s))"
  by (simp add: sys_fstat_def Let_def)

lemma trace_log: "trace (log E e s) = trace s @ [e]"
  by (simp add: log_def)

lemma wipe_trace:
  assumes "spc_fd_wipe E s = Some (r, s')"
  shows "(\<not> fstat_ok E (tick s) \<and> r = - 1 \<and> s' = log E (Fstat None) s)
       \<or> (fstat_ok E (tick s) \<and> content s = [] \<and> r = 0 \<and> s' = log E (Fstat (Some 0)) s)
       \<or> (fstat_ok E (tick s) \<and> content s \<noteq> [] \<and>
           (\<exists>segs. trace s' = trace s @ Fstat (Some (length (content s))) # concat segs
                  \<and> run_shape (length (content s)) 35 segs r))"
proof (cases "fstat_ok E (tick s)")
  case False
  with assms show ?thesis by (simp add: spc_fd_wipe_def sys_fstat_cases)
next
  case ok: True
  show ?thesis
  proof (cases "content s = []")
    case True
    with assms ok show ?thesis by (simp add: spc_fd_wipe_def sys_fstat_cases)
  next
    case False
    let ?S = "length (content s)"
    let ?s0 = "log E (Fstat (Some ?S)) s"
    from assms[unfolded spc_fd_wipe_def wipe_seq_flat] ok False obtain buf' where
      "seq (wipe_steps E ?S) (?s0, replicate SPC_WIPE_BUFSIZE 0) = Some (r, s', buf')"
      by (auto simp: sys_fstat_cases)
    from seq_shape[OF wipe_steps_like this] obtain segs where
      "trace s' = trace ?s0 @ concat segs" "run_shape ?S 35 segs r"
      by (auto simp: wipe_steps_length)
    with ok False show ?thesis by (auto simp: trace_log)
  qed
qed

lemma ok_seg_last: "ok_seg S seg \<Longrightarrow> seg \<noteq> [] \<and> last seg = Fsync"
  by (auto simp: ok_seg_def tail_ok_def split: list.splits event.splits)

lemma bad_seg_last: "bad_seg seg \<Longrightarrow> seg \<noteq> [] \<and> failed (last seg)"
  by (auto simp: bad_seg_def tail_bad_def split: list.splits event.splits if_splits)

lemma last_concat: "segs \<noteq> [] \<Longrightarrow> last segs \<noteq> [] \<Longrightarrow> last (concat segs) = last (last segs)"
  by (cases segs rule: rev_cases) auto

lemma run_shape_last:
  assumes "run_shape S n segs r" and "0 < n"
  shows "concat segs \<noteq> [] \<and> (r = 0 \<or> r = - 1) \<and> (failed (last (concat segs)) \<longleftrightarrow> r = - 1)"
proof (cases "r = 0")
  case True
  with assms have ne: "segs \<noteq> []" and all: "list_all (ok_seg S) segs"
    by (auto simp: run_shape_def)
  then have "ok_seg S (last segs)" by (simp add: list_all_iff)
  from ok_seg_last[OF this] last_concat[OF ne] ne True show ?thesis
    by (cases segs rule: rev_cases) auto
next
  case False
  with assms have ne: "segs \<noteq> []" and "bad_seg (last segs)" and r: "r = - 1"
    by (auto simp: run_shape_def)
  from bad_seg_last[OF this(2)] last_concat[OF ne] ne r show ?thesis
    by (cases segs rule: rev_cases) auto
qed

subsection \<open>Calls that return\<close>

lemma SSIZE_MAX_pos: "0 < SSIZE_MAX"
  by (simp add: SSIZE_MAX_def)

lemma write_loop_unfold:
  assumes "sys_write E s (take (min (n - wr) SSIZE_MAX) (drop wr buf)) (min (n - wr) SSIZE_MAX) = (r, s1)"
  shows "write_loop E s buf n wr =
     (case r of
        Accept k \<Rightarrow> if wr + k < n then write_loop E s1 buf n (wr + k) else Some (1, s1)
      | Eintr \<Rightarrow> if wr < n then write_loop E s1 buf n wr else Some (1, s1)
      | Werr \<Rightarrow> Some (0, s1))"
proof -
  have "(if SSIZE_MAX < n - wr then SSIZE_MAX else n - wr) = min (n - wr) SSIZE_MAX"
    by (simp add: min_def)
  then show ?thesis
    by (subst write_loop.simps) (simp add: Let_def assms)
qed

lemma write_loop_returns:
  assumes live: "write_progress E"
  shows "\<exists>y. write_loop E s buf n wr = Some y"
proof (induction "n - wr" arbitrary: s wr rule: less_induct)
  case less
  let ?c = "\<lambda>wr. min (n - wr) SSIZE_MAX"
  have prog: "\<exists>y. write_loop E s1 buf n wr = Some y"
    if ns: "\<not> stalls (write_ret E (tick s1))" for s1
  proof -
    obtain r s2 where sw: "sys_write E s1 (take (?c wr) (drop wr buf)) (?c wr) = (r, s2)"
      by (cases "sys_write E s1 (take (?c wr) (drop wr buf)) (?c wr)")
    note unf = write_loop_unfold[OF sw]
    note r = sys_write_cases(2)[OF sw]
    show ?thesis
    proof (cases r)
      case (Accept k)
      show ?thesis
      proof (cases "wr + k < n")
        case True
        from r Accept ns obtain j where "write_ret E (tick s1) = Accept j" "0 < j" "k = min j (?c wr)"
          by (cases "write_ret E (tick s1)") auto
        with True SSIZE_MAX_pos have "0 < k" by simp
        with True have "n - (wr + k) < n - wr" by simp
        from less.hyps[OF this] unf Accept True show ?thesis by simp
      next
        case False
        with unf Accept show ?thesis by simp
      qed
    next
      case Eintr
      with r ns show ?thesis by (cases "write_ret E (tick s1)") auto
    next
      case Werr
      with unf show ?thesis by simp
    qed
  qed
  have inner: "\<exists>y. write_loop E s1 buf n wr = Some y"
    if "\<not> stalls (write_ret E (tick s1 + k))" for k s1
    using that
  proof (induction k arbitrary: s1)
    case 0
    then show ?case using prog by simp
  next
    case (Suc k)
    show ?case
    proof (cases "stalls (write_ret E (tick s1))")
      case False
      then show ?thesis by (rule prog)
    next
      case True
      obtain r s2 where sw: "sys_write E s1 (take (?c wr) (drop wr buf)) (?c wr) = (r, s2)"
        by (cases "sys_write E s1 (take (?c wr) (drop wr buf)) (?c wr)")
      note unf = write_loop_unfold[OF sw]
      note r = sys_write_cases(2)[OF sw]
      from sys_write_cases(1)[OF sw] have "tick s2 = Suc (tick s1)" by (simp add: tick_def)
      with Suc.prems have "\<not> stalls (write_ret E (tick s2 + k))" by simp
      from Suc.IH[OF this] obtain y where rec: "write_loop E s2 buf n wr = Some y" ..
      from True r have "r = Eintr \<or> r = Accept 0"
        by (cases "write_ret E (tick s1)") auto
      with unf rec show ?thesis by auto
    qed
  qed
  from live obtain t' where "tick s \<le> t'" "\<not> stalls (write_ret E t')"
    unfolding write_progress_def by blast
  then have "\<not> stalls (write_ret E (tick s + (t' - tick s)))" by simp
  from inner[OF this] show ?case .
qed

lemma write_data_returns: "write_progress E \<Longrightarrow> \<exists>ok s'. write_data E s buf n = Some (ok, s')"
  using write_loop_returns[of E s buf n 0] by (auto simp: write_data_def)

lemma pattern_loop_returns:
  assumes "write_progress E" and "0 < bufsz"
  shows "\<exists>y. pattern_loop E s buf bufsz filesz = Some y"
proof (induction filesz arbitrary: s rule: less_induct)
  case (less filesz)
  show ?case
  proof (cases "0 < filesz")
    case False
    then show ?thesis by (subst pattern_loop.simps) (simp split: prod.splits)
  next
    case True
    let ?tw = "if bufsz < filesz then bufsz else filesz"
    from write_data_returns[OF assms(1)] obtain ok s1 where
      wd: "write_data E s buf ?tw = Some (ok, s1)" by blast
    from True assms(2) have "filesz - ?tw < filesz" by simp
    from less.IH[OF this] obtain y where "pattern_loop E s1 buf bufsz (filesz - ?tw) = Some y" ..
    with wd True show ?thesis by (subst pattern_loop.simps) (simp add: Let_def)
  qed
qed

lemma random_loop_returns:
  assumes "write_progress E"
  shows "\<exists>y. random_loop E s nbytes = Some y"
proof (induction nbytes arbitrary: s rule: less_induct)
  case (less nbytes)
  show ?case
  proof (cases "0 < nbytes")
    case False
    then show ?thesis by (subst random_loop.simps) (simp split: prod.splits)
  next
    case True
    let ?tw = "if SPC_WIPE_BUFSIZE < nbytes then SPC_WIPE_BUFSIZE else nbytes"
    obtain buf s0 where rnd: "spc_rand E s ?tw = (buf, s0)" by (cases "spc_rand E s ?tw")
    from write_data_returns[OF assms(1)] obtain ok s1 where
      wd: "write_data E s0 buf ?tw = Some (ok, s1)" by blast
    from True bufsize_pos have "nbytes - ?tw < nbytes" by simp
    from less.IH[OF this] obtain y where "random_loop E s1 (nbytes - ?tw) = Some y" ..
    with wd rnd True show ?thesis by (subst random_loop.simps) (simp add: Let_def)
  qed
qed

subsection \<open>Calls that never return, calls that succeed\<close>

lemma write_loop_stalled_aux:
  assumes a: "write_loop E s buf n wr = Some y"
  shows "\<not> ((\<forall>t. write_ret E t = Eintr) \<and> wr < n)"
proof (rule write_loop.raw_induct
    [where P = "\<lambda>E s buf n wr y. \<not> ((\<forall>t. write_ret E t = Eintr) \<and> wr < n)", OF _ a],
    goal_cases)
  case (1 wl E s buf n wr y)
  show ?case
  proof
    assume st: "(\<forall>t. write_ret E t = Eintr) \<and> wr < n"
    then have "\<And>d c. sys_write E s d c = (Eintr, log E (Write d c Eintr) s)"
      by (simp add: sys_write_def)
    with 1(2) st have "wl E (log E (Write (take (if SSIZE_MAX < n - wr then SSIZE_MAX else n - wr) (drop wr buf))
        (if SSIZE_MAX < n - wr then SSIZE_MAX else n - wr) Eintr) s) buf n wr = Some y"
      by (simp add: Let_def)
    from 1(1)[OF this] st show False by simp
  qed
qed

lemma write_data_stalled:
  "\<forall>t. write_ret E t = Eintr \<Longrightarrow> 0 < n \<Longrightarrow> write_data E s buf n = None"
  using write_loop_stalled_aux[of E s buf n 0] by (cases "write_data E s buf n") (auto simp: write_data_def)

lemma write_loop_no_werr_aux:
  assumes a: "write_loop E s buf n wr = Some y"
  shows "(\<forall>t. write_ret E t \<noteq> Werr) \<longrightarrow> fst y = 1"
proof (rule write_loop.raw_induct
    [where P = "\<lambda>E s buf n wr y. (\<forall>t. write_ret E t \<noteq> Werr) \<longrightarrow> fst y = 1", OF _ a],
    goal_cases)
  case (1 wl E s buf n wr y)
  show ?case
  proof
    assume nw: "\<forall>t. write_ret E t \<noteq> Werr"
    let ?c = "if SSIZE_MAX < n - wr then SSIZE_MAX else n - wr"
    obtain r s1 where sw: "sys_write E s (take ?c (drop wr buf)) ?c = (r, s1)"
      by (cases "sys_write E s (take ?c (drop wr buf)) ?c")
    from sys_write_cases(2)[OF sw] nw have "r \<noteq> Werr"
      by (auto split: wres.splits)
    with 1(2) sw 1(1) nw show "fst y = 1"
      by (cases r) (auto simp: Let_def split: if_splits)
  qed
qed

lemma write_data_no_werr:
  "write_data E s buf n = Some (ok, s') \<Longrightarrow> \<forall>t. write_ret E t \<noteq> Werr \<Longrightarrow> ok = 1"
  using write_loop_no_werr_aux[of E s buf n 0 "(ok, s')"] by (simp add: write_data_def)

lemma pattern_loop_no_werr_aux:
  assumes a: "pattern_loop E s buf bufsz filesz = Some y"
  shows "(\<forall>t. write_ret E t \<noteq> Werr) \<longrightarrow> fst y = 0"
proof (rule pattern_loop.raw_induct
    [where P = "\<lambda>E s buf bufsz filesz y. (\<forall>t. write_ret E t \<noteq> Werr) \<longrightarrow> fst y = 0", OF _ a],
    goal_cases)
  case (1 pl E s buf bufsz filesz y)
  show ?case
  proof
    assume nw: "\<forall>t. write_ret E t \<noteq> Werr"
    show "fst y = 0"
    proof (cases "0 < filesz")
      case False
      with 1(2) show ?thesis by (auto split: prod.splits)
    next
      case True
      let ?tw = "if bufsz < filesz then bufsz else filesz"
      from 1(2) True obtain ok s1 where wd: "write_data E s buf ?tw = Some (ok, s1)"
        and rest: "(if ok = 0 then Some (- 1, s1) else pl E s1 buf bufsz (filesz - ?tw)) = Some y"
        by (auto simp: Let_def split: option.splits)
      from write_data_no_werr[OF wd nw] rest have "pl E s1 buf bufsz (filesz - ?tw) = Some y"
        by simp
      from 1(1)[OF this] nw show ?thesis by simp
    qed
  qed
qed

lemma random_loop_no_werr_aux:
  assumes a: "random_loop E s nbytes = Some y"
  shows "(\<forall>t. write_ret E t \<noteq> Werr) \<longrightarrow> fst y = 0"
proof (rule random_loop.raw_induct
    [where P = "\<lambda>E s nbytes y. (\<forall>t. write_ret E t \<noteq> Werr) \<longrightarrow> fst y = 0", OF _ a],
    goal_cases)
  case (1 rl E s nbytes y)
  show ?case
  proof
    assume nw: "\<forall>t. write_ret E t \<noteq> Werr"
    show "fst y = 0"
    proof (cases "0 < nbytes")
      case False
      with 1(2) show ?thesis by (auto split: prod.splits)
    next
      case True
      let ?tw = "if SPC_WIPE_BUFSIZE < nbytes then SPC_WIPE_BUFSIZE else nbytes"
      obtain buf s0 where rnd: "spc_rand E s ?tw = (buf, s0)" by (cases "spc_rand E s ?tw")
      from 1(2) True rnd obtain ok s1 where wd: "write_data E s0 buf ?tw = Some (ok, s1)"
        and rest: "(if ok = 0 then Some (- 1, s1) else rl E s1 (nbytes - ?tw)) = Some y"
        by (auto simp: Let_def split: option.splits)
      from write_data_no_werr[OF wd nw] rest have "rl E s1 (nbytes - ?tw) = Some y"
        by simp
      from 1(1)[OF this] nw show ?thesis by simp
    qed
  qed
qed

lemma sys_lseek_good: "good_env E \<Longrightarrow> \<exists>s1. sys_lseek E s = (0, s1)"
  by (simp add: good_env_def sys_lseek_def)

lemma random_pass_good:
  assumes "good_env E"
  shows "\<exists>s'. random_pass E s n = Some (0, s')"
proof -
  from sys_lseek_good[OF assms] obtain s1 where ls: "sys_lseek E s = (0, s1)" ..
  from assms random_loop_returns obtain y where y: "random_loop E s1 n = Some y"
    unfolding good_env_def by blast
  from random_loop_no_werr_aux[OF y] assms have "fst y = 0" by (simp add: good_env_def)
  with y ls show ?thesis by (cases y) (simp add: random_pass_def)
qed

lemma pattern_pass_good:
  assumes "good_env E" and "0 < bufsz"
  shows "\<exists>s'. pattern_pass E s buf bufsz n = Some (0, s')"
proof -
  from sys_lseek_good[OF assms(1)] obtain s1 where ls: "sys_lseek E s = (0, s1)" ..
  from assms pattern_loop_returns obtain y where y: "pattern_loop E s1 buf bufsz n = Some y"
    unfolding good_env_def by blast
  from pattern_loop_no_werr_aux[OF y] assms have "fst y = 0" by (simp add: good_env_def)
  with y ls assms(2) show ?thesis by (cases y) (simp add: pattern_pass_def)
qed

lemma seq_succeeds: "\<forall>f \<in> set fs. succeeds f \<Longrightarrow> \<exists>st'. seq fs st = Some (0, st')"
proof (induction fs arbitrary: st)
  case Nil
  show ?case by simp
next
  case (Cons f fs)
  then obtain st1 where "f st = Some (0, st1)" unfolding succeeds_def by (metis list.set_intros(1))
  moreover from Cons.prems have "\<forall>f \<in> set fs. succeeds f" by simp
  from Cons.IH[OF this, of st1] obtain st' where "seq fs st1 = Some (0, st')" ..
  ultimately show ?case by simp
qed

lemma rnd_step_good:
  assumes "good_env E"
  shows "succeeds (rnd_step E S)"
  unfolding succeeds_def
proof
  fix st :: wstate
  obtain s buf where st: "st = (s, buf)" by (cases st)
  from random_pass_good[OF assms] obtain s' where "random_pass E s S = Some (0, s')" ..
  with st show "\<exists>st'. rnd_step E S st = Some (0, st')" by (simp add: rnd_step_def)
qed

lemma single_step_good:
  assumes "good_env E"
  shows "succeeds (single_step E S c)"
  unfolding succeeds_def
proof
  fix st :: wstate
  obtain s buf where st: "st = (s, buf)" by (cases st)
  from pattern_pass_good[OF assms bufsize_pos] obtain s' where
    "pattern_pass E s (memset buf c SPC_WIPE_BUFSIZE) SPC_WIPE_BUFSIZE S = Some (0, s')" ..
  with st show "\<exists>st'. single_step E S c st = Some (0, st')"
    by (simp add: single_step_def Let_def)
qed

lemma triple_step_good:
  assumes "good_env E"
  shows "succeeds (triple_step E S p)"
  unfolding succeeds_def
proof
  fix st :: wstate
  obtain s buf where st: "st = (s, buf)" by (cases st)
  let ?buf = "foldl (\<lambda>b i. memcpy b (i * patternsz) p patternsz) buf
                [0..<SPC_WIPE_BUFSIZE div patternsz]"
  have "0 < patternsz * (SPC_WIPE_BUFSIZE div patternsz)" by (simp add: triple_bufsz)
  from pattern_pass_good[OF assms this] obtain s' where
    "pattern_pass E s ?buf (patternsz * (SPC_WIPE_BUFSIZE div patternsz)) S = Some (0, s')" ..
  with st show "\<exists>st'. triple_step E S p st = Some (0, st')"
    by (simp add: triple_step_def Let_def)
qed

lemma wipe_good:
  assumes "good_env E" and "fstat_ok E (tick s)"
  shows "\<exists>s'. spc_fd_wipe E s = Some (0, s')"
proof (cases "content s = []")
  case True
  with assms(2) show ?thesis by (simp add: spc_fd_wipe_def sys_fstat_cases)
next
  case False
  have "\<forall>f \<in> set (wipe_steps E (length (content s))). succeeds f"
    using assms(1) by (auto simp: wipe_steps_def rnd_step_good single_step_good triple_step_good)
  from seq_succeeds[OF this] obtain st' where
    "seq (wipe_steps E (length (content s)))
       (log E (Fstat (Some (length (content s)))) s, replicate SPC_WIPE_BUFSIZE 0) = Some (0, st')"
    by blast
  with False assms(2) show ?thesis
    unfolding spc_fd_wipe_def wipe_seq_flat by (cases st') (simp add: sys_fstat_cases)
qed

lemma ideal_env_good: "good_env ideal_env"
  by (auto simp: good_env_def write_progress_def ideal_env_def)

subsection \<open>Three failing runs\<close>

lemma upt4: "[0..<4] = [0, 1, 2, 3]"
  by (simp add: upt_rec)

lemmas run_simps =
  spc_fd_wipe_def sys_fstat_cases ideal_env_def file_of_def tick_def log_def
  for_pass_def upt4 rnd_step_def random_pass_def sys_lseek_def
  random_loop.simps[of _ _ "Suc 0"] random_loop.simps[of _ _ 0]
  spc_rand_def write_data_def write_loop.simps sys_write_def sys_fsync_def overwrite_def
  SPC_WIPE_BUFSIZE_def SSIZE_MAX_def Let_def

lemma stat_fail_run: "spc_fd_wipe stat_fail_env (file_of [0x41]) = Some (- 1, stat_fail_final)"
  by (simp add: run_simps stat_fail_env_def stat_fail_final_def)

lemma seek_fail_run: "spc_fd_wipe seek_fail_env (file_of [0x41]) = Some (- 1, seek_fail_final)"
  by (simp add: run_simps seek_fail_env_def seek_fail_final_def)

lemma write_fail_run: "spc_fd_wipe werr_env (file_of [0x41]) = Some (- 1, write_fail_final)"
  by (simp add: run_simps werr_env_def write_fail_final_def)

subsection \<open>The wipe as a whole\<close>

lemma data_filters:
  "list_all is_data xs \<Longrightarrow>
     filter is_fstat xs = [] \<and> filter is_lseek xs = [] \<and> filter is_fsync xs = []"
proof (induction xs)
  case Nil
  show ?case by simp
next
  case (Cons e xs)
  then show ?case by (cases e) simp_all
qed

lemma ok_seg_counts:
  assumes "ok_seg S seg"
  shows "length (filter is_lseek seg) = 1 \<and> length (filter is_fsync seg) = 1
       \<and> filter is_fstat seg = []"
proof -
  from assms obtain rest where seg: "seg = Lseek 0 # rest" and t: "tail_ok S rest"
    by (auto simp: ok_seg_def split: list.splits event.splits)
  from t have rest: "rest = butlast rest @ [Fsync]" and d: "list_all is_data (butlast rest)"
    by (auto simp: tail_ok_def dest: append_butlast_last_id)
  from data_filters[OF d] have
    "filter is_fstat (butlast rest @ [Fsync]) = []"
    "filter is_lseek (butlast rest @ [Fsync]) = []"
    "length (filter is_fsync (butlast rest @ [Fsync])) = 1"
    by simp_all
  with rest seg show ?thesis by simp
qed

lemma ok_segs_counts:
  "list_all (ok_seg S) segs \<Longrightarrow>
     length (filter is_lseek (concat segs)) = length segs
   \<and> length (filter is_fsync (concat segs)) = length segs
   \<and> filter is_fstat (concat segs) = []"
proof (induction segs)
  case Nil
  show ?case by simp
next
  case (Cons seg segs)
  with ok_seg_counts[of S seg] show ?case by simp
qed

lemma last_app_cons: "ys \<noteq> [] \<Longrightarrow> last (xs @ x # ys) = last ys"
  by simp

lemma new_events_append: "trace s' = trace s @ evs \<Longrightarrow> new_events s s' = evs"
  by (simp add: new_events_def)

text \<open>
  Claim C4. The size is read by the one \<^verbatim>\<open>fstat\<close> call that opens the trace; a completed
  wipe of a non-empty file then consists of 35 passes, each of which is a successful
  \<^verbatim>\<open>lseek\<close> to offset 0, writes (and random draws) that transfer exactly the snapshot
  \<open>S\<close> bytes in total, and a closing \<^verbatim>\<open>fsync\<close>. This holds for every environment, in
  particular for every interference \<open>ext\<close> that changes the file's content and length
  between calls.
\<close>

theorem wipe_size_snapshot:
  assumes "spc_fd_wipe E s = Some (0, s')" and "content s \<noteq> []"
  shows "\<exists>segs. new_events s s' = Fstat (Some (length (content s))) # concat segs
             \<and> length segs = 35
             \<and> list_all (ok_seg (length (content s))) segs
             \<and> length (filter is_fstat (new_events s s')) = 1"
proof -
  let ?S = "length (content s)"
  from wipe_trace[OF assms(1)] assms(2) obtain segs where
    tr: "trace s' = trace s @ Fstat (Some ?S) # concat segs" and sh: "run_shape ?S 35 segs 0"
    by auto
  from sh have segs: "length segs = 35" "list_all (ok_seg ?S) segs" by (simp_all add: run_shape_def)
  from ok_segs_counts[OF segs(2)] have "filter is_fstat (concat segs) = []" by simp
  with new_events_append[OF tr] segs show ?thesis by (intro exI[of _ segs]) simp
qed

theorem wipe_size_snapshot_witness:
  "\<exists>s'. spc_fd_wipe ideal_env (file_of [0x41]) = Some (0, s')
      \<and> (\<exists>segs. new_events (file_of [0x41]) s' = Fstat (Some 1) # concat segs
             \<and> length segs = 35 \<and> list_all (ok_seg 1) segs)"
proof -
  have "fstat_ok ideal_env (tick (file_of [0x41]))" by (simp add: ideal_env_def)
  from wipe_good[OF ideal_env_good this] obtain s' where
    run: "spc_fd_wipe ideal_env (file_of [0x41]) = Some (0, s')" ..
  have ne: "content (file_of [0x41]) \<noteq> []" by (simp add: file_of_def)
  from wipe_size_snapshot[OF run ne] run show ?thesis by (auto simp: file_of_def)
qed

text \<open>
  Claim C5. When the size snapshot is 0, the wipe returns success and the only call it
  has made is the \<^verbatim>\<open>fstat\<close> (no seek, write or flush); a completed wipe of a non-empty
  file has started and completed exactly 35 passes.
\<close>

theorem wipe_pass_count:
  "(fstat_ok E (tick s) \<and> content s = [] \<longrightarrow>
      spc_fd_wipe E s = Some (0, log E (Fstat (Some 0)) s)
      \<and> new_events s (log E (Fstat (Some 0)) s) = [Fstat (Some 0)])
   \<and> (spc_fd_wipe E s = Some (0, s') \<and> content s \<noteq> [] \<longrightarrow>
      passes_started (new_events s s') = 35 \<and> passes_completed (new_events s s') = 35)"
proof (intro conjI impI)
  assume "fstat_ok E (tick s) \<and> content s = []"
  then show "spc_fd_wipe E s = Some (0, log E (Fstat (Some 0)) s)"
    by (simp add: spc_fd_wipe_def sys_fstat_cases)
next
  show "new_events s (log E (Fstat (Some 0)) s) = [Fstat (Some 0)]"
    by (simp add: new_events_def log_def)
next
  assume a: "spc_fd_wipe E s = Some (0, s') \<and> content s \<noteq> []"
  let ?S = "length (content s)"
  from wipe_trace[of E s 0 s'] a obtain segs where
    tr: "trace s' = trace s @ Fstat (Some ?S) # concat segs" and sh: "run_shape ?S 35 segs 0"
    by auto
  from sh have segs: "length segs = 35" "list_all (ok_seg ?S) segs" by (simp_all add: run_shape_def)
  from ok_segs_counts[OF segs(2)] segs(1) new_events_append[OF tr]
  show "passes_started (new_events s s') = 35" "passes_completed (new_events s s') = 35"
    by (simp_all add: passes_started_def passes_completed_def)
qed

theorem wipe_pass_count_witness:
  "spc_fd_wipe ideal_env (file_of []) = Some (0, \<lparr>trace = [Fstat (Some 0)], content = [], pos = 0\<rparr>)
   \<and> (\<exists>s'. spc_fd_wipe ideal_env (file_of [0x41]) = Some (0, s')
          \<and> passes_started (new_events (file_of [0x41]) s') = 35
          \<and> passes_completed (new_events (file_of [0x41]) s') = 35)"
proof -
  have ok: "fstat_ok ideal_env (tick (file_of [0x41]))" by (simp add: ideal_env_def)
  from wipe_good[OF ideal_env_good ok] obtain s' where
    run: "spc_fd_wipe ideal_env (file_of [0x41]) = Some (0, s')" ..
  have ne: "content (file_of [0x41]) \<noteq> []" by (simp add: file_of_def)
  from wipe_pass_count[of ideal_env "file_of [0x41]" s'] run ne
  have "passes_started (new_events (file_of [0x41]) s') = 35
      \<and> passes_completed (new_events (file_of [0x41]) s') = 35" by simp
  moreover from wipe_pass_count[of ideal_env "file_of []"]
  have "spc_fd_wipe ideal_env (file_of []) = Some (0, \<lparr>trace = [Fstat (Some 0)], content = [], pos = 0\<rparr>)"
    by (simp add: ideal_env_def file_of_def log_def tick_def)
  ultimately show ?thesis using run by blast
qed

text \<open>
  Claim C6. The trace of a wipe of a non-empty file is the \<^verbatim>\<open>fstat\<close> followed by the
  passes attempted, in order. When the wipe returns 0, these are 35 completed passes.
  Otherwise it returns \<open>-1\<close>, and the passes attempted are \<open>k - 1\<close> completed ones followed
  by the failing pass \<open>k \<le> 35\<close>, whose last event is the failed operation; that event is
  the last of the whole trace, so nothing (no later pass, no write that restores
  content) happens after the first failure.
\<close>

theorem wipe_stops_at_first_failure:
  assumes "spc_fd_wipe E s = Some (r, s')" and "fstat_ok E (tick s)" and "content s \<noteq> []"
  shows "\<exists>segs. new_events s s' = Fstat (Some (length (content s))) # concat segs
           \<and> (if r = 0 then length segs = 35 \<and> list_all (ok_seg (length (content s))) segs
              else r = - 1 \<and> segs \<noteq> [] \<and> length segs \<le> 35
                 \<and> list_all (ok_seg (length (content s))) (butlast segs)
                 \<and> bad_seg (last segs)
                 \<and> last (trace s') = last (last segs)
                 \<and> failed (last (trace s')))"
proof -
  let ?S = "length (content s)"
  from wipe_trace[OF assms(1)] assms(2,3) obtain segs where
    tr: "trace s' = trace s @ Fstat (Some ?S) # concat segs" and sh: "run_shape ?S 35 segs r"
    by auto
  show ?thesis
  proof (cases "r = 0")
    case True
    with sh new_events_append[OF tr] show ?thesis
      by (intro exI[of _ segs]) (simp add: run_shape_def)
  next
    case False
    with sh have b: "r = - 1" "segs \<noteq> []" "length segs \<le> 35"
      "list_all (ok_seg ?S) (butlast segs)" "bad_seg (last segs)"
      by (simp_all add: run_shape_def)
    from bad_seg_last[OF b(5)] have l: "last segs \<noteq> []" "failed (last (last segs))" by simp_all
    from last_concat[OF b(2) l(1)] b(2) l(1) tr
    have "last (trace s') = last (last segs)"
      by (cases segs rule: rev_cases) auto
    with b l False new_events_append[OF tr] show ?thesis
      by (intro exI[of _ segs]) simp
  qed
qed

theorem wipe_stops_at_first_failure_witness:
  "spc_fd_wipe seek_fail_env (file_of [0x41]) = Some (- 1, seek_fail_final)
   \<and> last (trace seek_fail_final) = Lseek (- 1)
   \<and> (\<exists>segs. new_events (file_of [0x41]) seek_fail_final = Fstat (Some 1) # concat segs
          \<and> segs \<noteq> [] \<and> length segs \<le> 35 \<and> bad_seg (last segs))"
proof -
  have ok: "fstat_ok seek_fail_env (tick (file_of [0x41]))"
    by (simp add: seek_fail_env_def ideal_env_def)
  have ne: "content (file_of [0x41]) \<noteq> []" by (simp add: file_of_def)
  from wipe_stops_at_first_failure[OF seek_fail_run ok ne] seek_fail_run
  show ?thesis by (auto simp: file_of_def seek_fail_final_def)
qed

text \<open>
  Claim C7, as amended. The wipe returns 0 or \<open>-1\<close>, and it returns \<open>-1\<close> exactly when
  the last call it made failed: an \<^verbatim>\<open>fstat\<close> that failed, an \<^verbatim>\<open>lseek\<close> that did not return
  0, or a \<^verbatim>\<open>write\<close> that failed with an error other than \<^verbatim>\<open>EINTR\<close>. The value is the same
  \<open>-1\<close> for the three kinds.
\<close>

theorem wipe_failure_value:
  assumes "spc_fd_wipe E s = Some (r, s')"
  shows "(r = 0 \<or> r = - 1) \<and> (r = - 1 \<longleftrightarrow> failed (last (trace s')))"
proof -
  from wipe_trace[OF assms] consider
    (stat) "r = - 1" "s' = log E (Fstat None) s"
  | (empty) "r = 0" "s' = log E (Fstat (Some 0)) s"
  | (passes) segs where "trace s' = trace s @ Fstat (Some (length (content s))) # concat segs"
      "run_shape (length (content s)) 35 segs r"
    by blast
  then show ?thesis
  proof cases
    case stat
    then show ?thesis by (simp add: log_def)
  next
    case empty
    then show ?thesis by (simp add: log_def)
  next
    case passes
    from run_shape_last[OF passes(2)] have
      l: "concat segs \<noteq> []" "r = 0 \<or> r = - 1" "failed (last (concat segs)) \<longleftrightarrow> r = - 1"
      by simp_all
    from passes(1) last_app_cons[OF l(1)] have "last (trace s') = last (concat segs)"
      by (simp only:)
    with l show ?thesis by auto
  qed
qed

theorem wipe_failure_value_witness:
  "spc_fd_wipe werr_env (file_of [0x41]) = Some (- 1, write_fail_final)
   \<and> failed (last (trace write_fail_final))"
  using wipe_failure_value[OF write_fail_run] write_fail_run by simp

text \<open>
  Claim C7, as stated, fails: a failed size query, a failed seek and a failed write all
  make the wipe return the same value \<open>-1\<close>, so the result alone does not tell the
  caller which kind of error occurred.
\<close>

theorem wipe_error_kind_counterexample:
  "spc_fd_wipe stat_fail_env (file_of [0x41]) = Some (- 1, stat_fail_final)
   \<and> last (trace stat_fail_final) = Fstat None
   \<and> spc_fd_wipe seek_fail_env (file_of [0x41]) = Some (- 1, seek_fail_final)
   \<and> last (trace seek_fail_final) = Lseek (- 1)
   \<and> spc_fd_wipe werr_env (file_of [0x41]) = Some (- 1, write_fail_final)
   \<and> last (trace write_fail_final) = Write [0x5a] 1 Werr"
  using stat_fail_run seek_fail_run write_fail_run
  by (simp add: stat_fail_final_def seek_fail_final_def write_fail_final_def)

subsection \<open>Termination of the chunk loops\<close>

text \<open>
  Claim C10, as amended. In every environment in which \<^verbatim>\<open>write\<close> never answers with an
  endless run of \<^verbatim>\<open>EINTR\<close> or zero-byte results, the chunk loops of \<open>random_pass\<close> and of
  \<open>pattern_pass\<close> (for a positive buffer size) return, for every size; a zero buffer
  size never reaches the loop, because \<open>pattern_pass\<close> rejects it before any call.
\<close>

theorem chunk_loops_terminate:
  assumes "write_progress E" and "0 < bufsz"
  shows "(\<exists>y. random_loop E s nbytes = Some y)
       \<and> (\<exists>y. pattern_loop E s buf bufsz filesz = Some y)
       \<and> pattern_pass E s buf 0 filesz = Some (- 1, s)"
  using random_loop_returns[OF assms(1)] pattern_loop_returns[OF assms]
  by (simp add: pattern_pass_def)

theorem chunk_loops_terminate_witness:
  "write_progress ideal_env
   \<and> (\<exists>y. random_loop ideal_env (file_of [0x41]) 5000 = Some y)
   \<and> (\<exists>y. pattern_loop ideal_env (file_of [0x41]) (replicate 4096 0x55) 4096 5000 = Some y)"
proof -
  have p: "write_progress ideal_env" using ideal_env_good by (simp add: good_env_def)
  from chunk_loops_terminate[OF p, of 4096] p show ?thesis by simp
qed

text \<open>
  Claim C10, as stated, fails: when every \<^verbatim>\<open>write\<close> is interrupted (\<^verbatim>\<open>EINTR\<close>),
  \<open>write_data\<close> retries for ever, so the first iteration of either chunk loop never ends,
  even for one byte and a positive buffer size.
\<close>

theorem chunk_loops_stall_counterexample:
  "random_loop eintr_env (file_of [0x41]) 1 = None
   \<and> pattern_loop eintr_env (file_of [0x41]) [0x55] 1 1 = None"
proof -
  have st: "\<forall>t. write_ret eintr_env t = Eintr" by (simp add: eintr_env_def)
  have "random_loop eintr_env (file_of [0x41]) 1 = None"
    by (subst random_loop.simps)
      (simp add: Let_def write_data_stalled[OF st] SPC_WIPE_BUFSIZE_def split: prod.splits)
  moreover have "pattern_loop eintr_env (file_of [0x41]) [0x55] 1 1 = None"
    by (subst pattern_loop.simps) (simp add: Let_def write_data_stalled[OF st])
  ultimately show ?thesis by simp
qed

subsection \<open>The output of a pattern pass\<close>

lemma cyc_chunk:
  assumes "0 < length B"
  shows "cyc B n = take (min (length B) n) B @ cyc B (n - min (length B) n)"
proof (rule nth_equalityI)
  show "length (cyc B n) = length (take (min (length B) n) B @ cyc B (n - min (length B) n))"
    by (simp add: cyc_def)
next
  fix i assume "i < length (cyc B n)"
  then have i: "i < n" by (simp add: cyc_def)
  show "cyc B n ! i = (take (min (length B) n) B @ cyc B (n - min (length B) n)) ! i"
  proof (cases "i < min (length B) n")
    case True
    with i show ?thesis by (simp add: cyc_def nth_append)
  next
    case False
    with i have le: "length B \<le> i" and m: "min (length B) n = length B" by auto
    from le have "i mod length B = (i - length B) mod length B" by (simp add: le_mod_geq)
    with i le m show ?thesis by (simp add: cyc_def nth_append)
  qed
qed

lemma pl_run_out:
  assumes "pl_run buf bufsz n evs r" and "r = 0" and "0 < bufsz" and "bufsz \<le> length buf"
  shows "out evs = cyc (take bufsz buf) n"
  using assms
proof (induction rule: pl_run.induct)
  case (pl_done buf bufsz)
  show ?case by (simp add: cyc_def)
next
  case (pl_fail filesz buf bufsz evs)
  then show ?case by simp
next
  case (pl_more filesz buf bufsz evs evs' r)
  let ?tw = "min bufsz filesz"
  let ?B = "take bufsz buf"
  from pl_more.prems have lB: "length ?B = bufsz" by simp
  from wd_run_out[OF pl_more.hyps(2)] have "out evs = take ?tw buf" by simp
  then have o1: "out evs = take (min (length ?B) filesz) ?B" by (simp add: lB min_def)
  from pl_more.IH pl_more.prems have o2: "out evs' = cyc ?B (filesz - ?tw)" by simp
  from pl_more.prems lB have "0 < length ?B" by simp
  from cyc_chunk[OF this, of filesz] o1 o2 lB show ?case by (simp add: out_append)
qed

lemma pattern_pass_out:
  assumes "pattern_pass E s buf bufsz n = Some (0, s')" and "0 < bufsz" and "bufsz \<le> length buf"
  shows "out (new_events s s') = cyc (take bufsz buf) n"
proof -
  obtain x s1 where ls: "sys_lseek E s = (x, s1)" by (cases "sys_lseek E s")
  note t1 = sys_lseek_trace[OF ls]
  from assms(1,2) ls have lp: "pattern_loop E s1 buf bufsz n = Some (0, s')"
    by (auto simp: pattern_pass_def split: if_splits)
  from pattern_loop_run_aux[OF lp] obtain evs where
    e: "trace s' = trace s1 @ evs" "pl_run buf bufsz n evs 0" by auto
  from e(1) t1 have "new_events s s' = Lseek x # evs" by (simp add: new_events_def)
  with pl_run_out[OF e(2) refl assms(2,3)] show ?thesis by simp
qed

lemma length_concat_replicate: "length (concat (replicate n p)) = n * length p"
  by (induction n) simp_all

lemma nth_concat_replicate:
  "i < n * length p \<Longrightarrow> concat (replicate n p) ! i = p ! (i mod length p)"
proof (induction n arbitrary: i)
  case 0
  then show ?case by simp
next
  case (Suc n)
  show ?case
  proof (cases "i < length p")
    case True
    then show ?thesis by (simp add: nth_append)
  next
    case False
    then have le: "length p \<le> i" by simp
    with Suc.prems have "i - length p < n * length p" by simp
    from Suc.IH[OF this] le show ?thesis by (simp add: nth_append le_mod_geq)
  qed
qed

lemma concat_replicate_snoc: "concat (replicate (Suc n) p) = concat (replicate n p) @ p"
  by (induction n) simp_all

lemma tile_fold:
  assumes "length p = m" and "m * n \<le> length buf"
  shows "foldl (\<lambda>b i. memcpy b (i * m) p m) buf [0..<n] = concat (replicate n p) @ drop (m * n) buf"
  using assms(2)
proof (induction n)
  case 0
  show ?case by simp
next
  case (Suc n)
  then have le: "m * n \<le> length buf" by simp
  let ?A = "concat (replicate n p)"
  have lA: "length ?A = n * m" by (simp add: length_concat_replicate assms(1))
  have "memcpy (?A @ drop (m * n) buf) (n * m) p m = ?A @ p @ drop (m * Suc n) buf"
    using lA assms(1) by (simp add: memcpy_def ac_simps)
  moreover have "concat (replicate (Suc n) p) = ?A @ p"
    by (rule concat_replicate_snoc)
  ultimately show ?case using Suc.IH[OF le] by (simp del: replicate_Suc)
qed

lemma cyc_pattern:
  assumes "\<forall>j < length B. B ! j = P ! (j mod length P)" and "length P dvd length B"
    and "0 < length B"
  shows "length (cyc B S) = S \<and> (\<forall>i<S. cyc B S ! i = P ! (i mod length P))"
proof (intro conjI allI impI)
  show "length (cyc B S) = S" by (simp add: cyc_def)
next
  fix i assume "i < S"
  then have "cyc B S ! i = B ! (i mod length B)" by (simp add: cyc_def)
  also from assms have "\<dots> = P ! (i mod length B mod length P)" by simp
  also from assms(2) have "\<dots> = P ! (i mod length P)" by (simp add: mod_mod_cancel)
  finally show "cyc B S ! i = P ! (i mod length P)" .
qed

lemma cyclic_repetitions:
  assumes len: "length xs = S" and nth: "\<forall>i<S. xs ! i = P ! (i mod length P)"
    and L: "0 < length P"
  shows "xs = concat (replicate (S div length P) P) @ take (S mod length P) P"
proof (rule nth_equalityI)
  let ?L = "length P" and ?q = "S div length P"
  from L have r: "S mod ?L < ?L" by simp
  have S: "S = ?q * ?L + S mod ?L" by simp
  from r have "length (concat (replicate ?q P) @ take (S mod ?L) P) = ?q * ?L + S mod ?L"
    by (simp add: length_concat_replicate min_def)
  with len S show "length xs = length (concat (replicate ?q P) @ take (S mod ?L) P)" by simp
  fix i assume "i < length xs"
  with len have i: "i < S" by simp
  show "xs ! i = (concat (replicate ?q P) @ take (S mod ?L) P) ! i"
  proof (cases "i < ?q * ?L")
    case True
    with nth i show ?thesis
      by (simp add: nth_append length_concat_replicate nth_concat_replicate)
  next
    case False
    define k where "k = i - ?q * ?L"
    from False have ik: "i = k + ?q * ?L" by (simp add: k_def)
    from i S ik have k: "k < S mod ?L" by linarith
    with r have "i mod ?L = k" by (simp add: ik)
    with nth i k False ik show ?thesis
      by (simp add: nth_append length_concat_replicate)
  qed
qed

text \<open>
  Claim C2. A pattern pass of the wipe with pattern \<open>P\<close> is the statement
  \<open>single_step\<close> (one byte, \<^verbatim>\<open>memset\<close> over the whole buffer) or \<open>triple_step\<close> (three bytes,
  copied 1365 times into the first 4095 bytes of the buffer). When such a pass succeeds
  on the size snapshot \<open>S\<close>, the bytes it has written, in order, are \<open>S\<close> bytes, the one at
  offset \<open>i\<close> being \<open>P ! (i mod length P)\<close>; for \<open>S = 5000\<close> and \<open>P = [0x92, 0x49, 0x24]\<close>
  these are 1666 repetitions of \<open>P\<close> followed by \<open>0x92, 0x49\<close>.
\<close>

theorem pattern_pass_output:
  assumes "length buf = SPC_WIPE_BUFSIZE"
    and "(P = [c] \<and> single_step E S c (s, buf) = Some (0, s', buf'))
       \<or> (length P = patternsz \<and> triple_step E S P (s, buf) = Some (0, s', buf'))"
  shows "length (out (new_events s s')) = S
       \<and> (\<forall>i<S. out (new_events s s') ! i = P ! (i mod length P))
       \<and> (S = 5000 \<and> P = [0x92, 0x49, 0x24] \<longrightarrow>
            out (new_events s s') = concat (replicate 1666 P) @ [0x92, 0x49])"
proof -
  have main: "length (out (new_events s s')) = S
            \<and> (\<forall>i<S. out (new_events s s') ! i = P ! (i mod length P))"
    using assms(2)
  proof
    assume a: "P = [c] \<and> single_step E S c (s, buf) = Some (0, s', buf')"
    let ?buf = "memset buf c SPC_WIPE_BUFSIZE"
    let ?B = "take SPC_WIPE_BUFSIZE ?buf"
    from a have pp: "pattern_pass E s ?buf SPC_WIPE_BUFSIZE S = Some (0, s')"
      by (auto simp: single_step_def Let_def)
    have B: "?B = replicate SPC_WIPE_BUFSIZE c" by (simp add: memset_def)
    have "SPC_WIPE_BUFSIZE \<le> length ?buf" by (simp add: memset_def)
    from pattern_pass_out[OF pp bufsize_pos this] have o: "out (new_events s s') = cyc ?B S" .
    have "\<forall>j < length ?B. ?B ! j = P ! (j mod length P)" using a by (simp add: B)
    moreover have "length P dvd length ?B" using a by simp
    moreover have "0 < length ?B" using bufsize_pos by (simp add: B)
    ultimately show ?thesis using cyc_pattern[of ?B P S] o by simp
  next
    assume a: "length P = patternsz \<and> triple_step E S P (s, buf) = Some (0, s', buf')"
    let ?n = "SPC_WIPE_BUFSIZE div patternsz"
    let ?buf = "foldl (\<lambda>b i. memcpy b (i * patternsz) P patternsz) buf [0..<?n]"
    let ?B = "take (patternsz * ?n) ?buf"
    from a have pp: "pattern_pass E s ?buf (patternsz * ?n) S = Some (0, s')"
      by (auto simp: triple_step_def Let_def)
    from a have lP: "length P = patternsz" by simp
    have le: "patternsz * ?n \<le> length buf" by (simp add: assms(1))
    from tile_fold[OF lP le] have tb: "?buf = concat (replicate ?n P) @ drop (patternsz * ?n) buf" .
    have lc: "length (concat (replicate ?n P)) = patternsz * ?n"
      by (simp add: length_concat_replicate lP)
    from tb lc have B: "?B = concat (replicate ?n P)" by simp
    have pos: "0 < patternsz * ?n" by (simp add: triple_bufsz)
    from tb lc have "patternsz * ?n \<le> length ?buf" by simp
    from pattern_pass_out[OF pp pos this] have o: "out (new_events s s') = cyc ?B S" .
    have "\<forall>j < length ?B. ?B ! j = P ! (j mod length P)"
      unfolding B using lP by (simp add: length_concat_replicate nth_concat_replicate ac_simps)
    moreover have "length P dvd length ?B" unfolding B by (simp add: length_concat_replicate)
    moreover have "0 < length ?B" unfolding B using pos lc by simp
    ultimately show ?thesis using cyc_pattern[of ?B P S] o by simp
  qed
  have "out (new_events s s') = concat (replicate 1666 P) @ [0x92, 0x49]"
    if "S = 5000 \<and> P = [0x92, 0x49, 0x24]"
  proof -
    from that have "S div length P = 1666" "take (S mod length P) P = [0x92, 0x49]" by simp_all
    with cyclic_repetitions[of "out (new_events s s')" S P] main that show ?thesis by simp
  qed
  with main show ?thesis by blast
qed

theorem pattern_pass_output_witness:
  "\<exists>s' buf'. triple_step ideal_env 5000 [0x92, 0x49, 0x24]
                (file_of (replicate 5000 0x41), replicate 4096 0) = Some (0, s', buf')
      \<and> length (out (new_events (file_of (replicate 5000 0x41)) s')) = 5000
      \<and> out (new_events (file_of (replicate 5000 0x41)) s')
          = concat (replicate 1666 [0x92, 0x49, 0x24]) @ [0x92, 0x49]"
proof -
  from triple_step_good[OF ideal_env_good, of 5000 "[0x92, 0x49, 0x24]"]
  obtain st' where "triple_step ideal_env 5000 [0x92, 0x49, 0x24]
      (file_of (replicate 5000 0x41), replicate 4096 0) = Some (0, st')"
    unfolding succeeds_def by blast
  then obtain s' buf' where run: "triple_step ideal_env 5000 [0x92, 0x49, 0x24]
      (file_of (replicate 5000 0x41), replicate 4096 0) = Some (0, s', buf')"
    by (cases st') simp
  have len: "length (replicate 4096 (0::byte)) = SPC_WIPE_BUFSIZE"
    by (simp add: SPC_WIPE_BUFSIZE_def)
  have lp: "length [0x92, 0x49, 0x24 :: byte] = patternsz" by (simp add: patternsz_eq)
  from pattern_pass_output[OF len disjI2, OF conjI, OF lp run] run
  show ?thesis by blast
qed

subsection \<open>The program follows the plan\<close>

lemma pass_like_ret: "pass_like S f \<Longrightarrow> f st = Some (r, st') \<Longrightarrow> r = 0 \<or> r = - 1"
  unfolding pass_like_def by (cases st, cases st') blast

lemma rnd_step_refines: "step_refines E S (rnd_step E S) Random"
  unfolding step_refines_def
proof (intro allI impI conjI)
  fix st :: wstate
  show "rnd_step E S st = spec_exec_pass E S Random st"
    by (cases st) (simp add: rnd_step_def)
next
  fix st r st' assume "length (snd st) = SPC_WIPE_BUFSIZE" "rnd_step E S st = Some (r, st')"
  then show "length (snd st') = SPC_WIPE_BUFSIZE"
    by (cases st) (auto simp: rnd_step_def)
next
  fix st r st' assume "rnd_step E S st = Some (r, st')"
  with pass_like_ret[OF rnd_step_like] show "r = 0 \<or> r = - 1" .
qed

lemma concat_replicate_single: "concat (replicate n [c]) = replicate n c"
  by (induction n) simp_all

lemma single_step_refines: "step_refines E S (single_step E S c) (Pattern [c])"
  unfolding step_refines_def
proof (intro allI impI conjI)
  fix st :: wstate
  show "single_step E S c st = spec_exec_pass E S (Pattern [c]) st"
    by (cases st) (simp add: single_step_def Let_def memset_def spec_tile_def concat_replicate_single)
next
  fix st r st' assume "length (snd st) = SPC_WIPE_BUFSIZE" "single_step E S c st = Some (r, st')"
  then show "length (snd st') = SPC_WIPE_BUFSIZE"
    by (cases st) (auto simp: single_step_def Let_def memset_def)
next
  fix st r st' assume "single_step E S c st = Some (r, st')"
  with pass_like_ret[OF single_step_like] show "r = 0 \<or> r = - 1" .
qed

lemma triple_tile:
  assumes "length p = 3" and "length buf = SPC_WIPE_BUFSIZE"
  shows "foldl (\<lambda>b i. memcpy b (i * 3) p 3) buf [0..<SPC_WIPE_BUFSIZE div 3] = spec_tile buf p"
proof -
  have "3 * (SPC_WIPE_BUFSIZE div 3) \<le> length buf"
    by (simp add: assms(2))
  from tile_fold[OF assms(1) this] assms(1) show ?thesis
    by (simp add: spec_tile_def)
qed

lemma triple_tile_length:
  assumes "length p = 3" and "length buf = SPC_WIPE_BUFSIZE"
  shows "length (foldl (\<lambda>b i. memcpy b (i * 3) p 3) buf [0..<SPC_WIPE_BUFSIZE div 3])
         = SPC_WIPE_BUFSIZE"
  unfolding triple_tile[OF assms]
  by (simp add: spec_tile_def length_concat_replicate assms SPC_WIPE_BUFSIZE_def)

lemma triple_step_refines:
  assumes "length p = 3"
  shows "step_refines E S (triple_step E S p) (Pattern p)"
  unfolding step_refines_def
proof (intro allI impI conjI)
  fix st :: wstate assume "length (snd st) = SPC_WIPE_BUFSIZE"
  then show "triple_step E S p st = spec_exec_pass E S (Pattern p) st"
    by (cases st) (simp add: triple_step_def Let_def patternsz_eq triple_tile[OF assms] assms)
next
  fix st r st' assume "length (snd st) = SPC_WIPE_BUFSIZE" "triple_step E S p st = Some (r, st')"
  then show "length (snd st') = SPC_WIPE_BUFSIZE"
    by (cases st)
      (auto simp: triple_step_def Let_def patternsz_eq triple_tile_length[OF assms])
next
  fix st r st' assume "triple_step E S p st = Some (r, st')"
  with pass_like_ret[OF triple_step_like] show "r = 0 \<or> r = - 1" .
qed

lemma seq_refines:
  assumes "list_all2 (step_refines E S) fs ds" and "length (snd st) = SPC_WIPE_BUFSIZE"
  shows "seq fs st = spec_run_plan E S ds st"
  using assms
proof (induction fs ds arbitrary: st rule: list_all2_induct)
  case Nil
  show ?case by simp
next
  case (Cons f fs d ds)
  from Cons.hyps(1) Cons.prems have eq: "f st = spec_exec_pass E S d st"
    and post: "\<And>r st'. f st = Some (r, st') \<Longrightarrow>
                 length (snd st') = SPC_WIPE_BUFSIZE \<and> (r = 0 \<or> r = - 1)"
    unfolding step_refines_def by blast+
  show ?case
  proof (cases "f st")
    case None
    with eq show ?thesis by simp
  next
    case (Some y)
    obtain r st' where y: "y = (r, st')" by (cases y)
    from post[OF Some[unfolded y]] have inv: "length (snd st') = SPC_WIPE_BUFSIZE"
      and r: "r = 0 \<or> r = - 1" by simp_all
    from Cons.IH[OF inv] Some y eq r show ?thesis by auto
  qed
qed

lemma spec_plan_by_tables:
  "spec_plan =
     map (\<lambda>pass. Random) [0..<4]
     @ [Pattern [single_pats ! 5], Pattern [single_pats ! 10]]
     @ map (\<lambda>pass. Pattern (triple_pats ! pass)) [0..<3]
     @ map (\<lambda>pass. Pattern [single_pats ! pass]) [0..<length single_pats]
     @ map (\<lambda>pass. Pattern (triple_pats ! pass)) [0..<length (concat triple_pats) div patternsz]
     @ map (\<lambda>pass. Random) [0..<4]"
  by (simp add: spec_plan_def single_pats_def triple_pats_def patternsz_def upt_rec)

lemma list_all2_map_same:
  "(\<And>i. i \<in> set is \<Longrightarrow> P (f i) (g i)) \<Longrightarrow> list_all2 P (map f is) (map g is)"
  by (induction "is") simp_all

lemma triple_pats_length: "i < 6 \<Longrightarrow> length (triple_pats ! i) = 3"
proof -
  assume "i < 6"
  then have "i < length triple_pats" by (simp add: triple_pats_def)
  moreover have "\<forall>p \<in> set triple_pats. length p = 3" by (simp add: triple_pats_def)
  ultimately show ?thesis using nth_mem by blast
qed

lemma wipe_steps_refine: "list_all2 (step_refines E S) (wipe_steps E S) spec_plan"
  unfolding wipe_steps_def spec_plan_by_tables
proof (intro list_all2_appendI list_all2_map_same)
  show "list_all2 (step_refines E S)
          [single_step E S (single_pats ! 5), single_step E S (single_pats ! 10)]
          [Pattern [single_pats ! 5], Pattern [single_pats ! 10]]"
    by (simp add: single_step_refines)
next
  fix i assume "i \<in> set [0..<3]"
  then have "i < 6" by simp
  from triple_step_refines[OF triple_pats_length[OF this]]
  show "step_refines E S (triple_step E S (triple_pats ! i)) (Pattern (triple_pats ! i))" .
next
  fix i assume "i \<in> set [0..<length (concat triple_pats) div patternsz]"
  then have "i < 6" by (simp add: triple_pats_def patternsz_def)
  from triple_step_refines[OF triple_pats_length[OF this]]
  show "step_refines E S (triple_step E S (triple_pats ! i)) (Pattern (triple_pats ! i))" .
qed (rule rnd_step_refines single_step_refines)+

text \<open>
  Claim C1. \<open>spc_fd_wipe\<close>, with its loops over the two pattern tables, is the
  specification's orchestrator run on the 35-entry plan \<open>spec_plan\<close>: passes 1-4 random,
  5 and 6 the bytes \<open>0x55\<close> and \<open>0xAA\<close>, 7-9 the first three triples, 10-25 the bytes
  \<open>0x00, 0x11, ..., 0xFF\<close>, 26-31 the six triples, 32-35 random; the passes run in this
  order and the run stops at the first pass that fails.
\<close>

theorem wipe_follows_plan:
  "spc_fd_wipe E s = spec_wipe E s \<and> length spec_plan = 35"
proof
  have eq: "seq (wipe_steps E S) (s0, replicate SPC_WIPE_BUFSIZE 0)
        = spec_run_plan E S spec_plan (s0, replicate SPC_WIPE_BUFSIZE 0)" for S s0
    by (rule seq_refines[OF wipe_steps_refine]) simp
  show "spc_fd_wipe E s = spec_wipe E s"
    unfolding spc_fd_wipe_def spec_wipe_def wipe_seq_flat
    by (simp add: eq split: prod.splits option.splits)
next
  show "length spec_plan = 35" by (simp add: spec_plan_def)
qed

subsection \<open>What the wipe does not depend on\<close>

lemma same_answers_sym: "same_answers E E' \<Longrightarrow> same_answers E' E"
  by (simp add: same_answers_def)

lemma sys_write_sim:
  assumes "same_answers E E'" and "trace s = trace t"
    and "sys_write E s d c = (r, s1)"
  shows "\<exists>t1. sys_write E' t d c = (r, t1) \<and> trace s1 = trace t1"
  using assms
  by (auto simp: same_answers_def sys_write_def log_def tick_def Let_def split: wres.splits)

lemma spc_rand_sim:
  assumes "same_answers E E'" and "trace s = trace t"
    and "spc_rand E s n = (b, s1)"
  shows "\<exists>t1. spc_rand E' t n = (b, t1) \<and> trace s1 = trace t1"
  using assms by (auto simp: same_answers_def spc_rand_def log_def tick_def)

lemma sys_lseek_sim:
  assumes "same_answers E E'" and "trace s = trace t"
    and "sys_lseek E s = (r, s1)"
  shows "\<exists>t1. sys_lseek E' t = (r, t1) \<and> trace s1 = trace t1"
  using assms by (auto simp: same_answers_def sys_lseek_def log_def tick_def Let_def)

lemma sys_fsync_sim:
  assumes "trace s = trace t" and "sys_fsync E s = (r, s1)"
  shows "\<exists>r' t1. sys_fsync E' t = (r', t1) \<and> trace s1 = trace t1"
  using assms by (auto simp: sys_fsync_def log_def)

lemma write_loop_sim_aux:
  assumes a: "write_loop E s buf n wr = Some y"
  shows "\<forall>E' t. same_answers E E' \<and> trace s = trace t \<longrightarrow>
           (\<exists>t'. write_loop E' t buf n wr = Some (fst y, t') \<and> trace (snd y) = trace t')"
proof (rule write_loop.raw_induct
    [where P = "\<lambda>E s buf n wr y. \<forall>E' t. same_answers E E' \<and> trace s = trace t \<longrightarrow>
           (\<exists>t'. write_loop E' t buf n wr = Some (fst y, t') \<and> trace (snd y) = trace t')",
      OF _ a], goal_cases)
  case (1 wl E s buf n wr y)
  note IH = 1(1)
  let ?c = "min (n - wr) SSIZE_MAX"
  have c: "(if SSIZE_MAX < n - wr then SSIZE_MAX else n - wr) = ?c" by (simp add: min_def)
  obtain r s1 where sw: "sys_write E s (take ?c (drop wr buf)) ?c = (r, s1)"
    by (cases "sys_write E s (take ?c (drop wr buf)) ?c")
  from 1(2) sw have body:
    "(case r of
        Accept k \<Rightarrow> if wr + k < n then wl E s1 buf n (wr + k) else Some (1, s1)
      | Eintr \<Rightarrow> if wr < n then wl E s1 buf n wr else Some (1, s1)
      | Werr \<Rightarrow> Some (0, s1)) = Some y"
    by (simp add: c Let_def)
  show ?case
  proof (intro allI impI)
    fix E' :: env and t :: fstate assume h: "same_answers E E' \<and> trace s = trace t"
    from sys_write_sim[OF _ _ sw] h obtain t1 where
      sw': "sys_write E' t (take ?c (drop wr buf)) ?c = (r, t1)" and tr1: "trace s1 = trace t1"
      by blast
    note unf = write_loop_unfold[OF sw']
    show "\<exists>t'. write_loop E' t buf n wr = Some (fst y, t') \<and> trace (snd y) = trace t'"
    proof (cases r)
      case (Accept k)
      show ?thesis
      proof (cases "wr + k < n")
        case True
        with body Accept have "wl E s1 buf n (wr + k) = Some y" by simp
        from IH[OF this] h tr1 obtain t' where
          "write_loop E' t1 buf n (wr + k) = Some (fst y, t')" "trace (snd y) = trace t'"
          by blast
        with unf Accept True show ?thesis by simp
      next
        case False
        with body Accept have "y = (1, s1)" by simp
        with unf Accept False tr1 show ?thesis by simp
      qed
    next
      case Eintr
      show ?thesis
      proof (cases "wr < n")
        case True
        with body Eintr have "wl E s1 buf n wr = Some y" by simp
        from IH[OF this] h tr1 obtain t' where
          "write_loop E' t1 buf n wr = Some (fst y, t')" "trace (snd y) = trace t'"
          by blast
        with unf Eintr True show ?thesis by simp
      next
        case False
        with body Eintr have "y = (1, s1)" by simp
        with unf Eintr False tr1 show ?thesis by simp
      qed
    next
      case Werr
      with body have "y = (0, s1)" by simp
      with unf Werr tr1 show ?thesis by simp
    qed
  qed
qed

lemma write_data_sim:
  assumes "write_data E s buf n = Some (ok, s')" and "same_answers E E'" and "trace s = trace t"
  shows "\<exists>t'. write_data E' t buf n = Some (ok, t') \<and> trace s' = trace t'"
  using write_loop_sim_aux[OF assms(1)[unfolded write_data_def]] assms(2,3)
  by (simp add: write_data_def)

lemma pattern_loop_sim_aux:
  assumes a: "pattern_loop E s buf bufsz filesz = Some y"
  shows "\<forall>E' t. same_answers E E' \<and> trace s = trace t \<longrightarrow>
           (\<exists>t'. pattern_loop E' t buf bufsz filesz = Some (fst y, t') \<and> trace (snd y) = trace t')"
proof (rule pattern_loop.raw_induct
    [where P = "\<lambda>E s buf bufsz filesz y. \<forall>E' t. same_answers E E' \<and> trace s = trace t \<longrightarrow>
       (\<exists>t'. pattern_loop E' t buf bufsz filesz = Some (fst y, t') \<and> trace (snd y) = trace t')",
      OF _ a], goal_cases)
  case (1 pl E s buf bufsz filesz y)
  note IH = 1(1)
  show ?case
  proof (intro allI impI)
    fix E' :: env and t :: fstate assume h: "same_answers E E' \<and> trace s = trace t"
    show "\<exists>t'. pattern_loop E' t buf bufsz filesz = Some (fst y, t') \<and> trace (snd y) = trace t'"
    proof (cases "0 < filesz")
      case False
      with 1(2) obtain r s' where fs: "sys_fsync E s = (r, s')" and y: "y = (0, s')"
        by (auto split: prod.splits)
      from sys_fsync_sim[OF _ fs, of t E'] h obtain r' t1 where
        "sys_fsync E' t = (r', t1)" "trace s' = trace t1" by blast
      with False y show ?thesis by (subst pattern_loop.simps) simp
    next
      case True
      let ?tw = "if bufsz < filesz then bufsz else filesz"
      from 1(2) True obtain ok s1 where wd: "write_data E s buf ?tw = Some (ok, s1)"
        and rest: "(if ok = 0 then Some (- 1, s1) else pl E s1 buf bufsz (filesz - ?tw)) = Some y"
        by (auto simp: Let_def split: option.splits)
      from write_data_sim[OF wd] h obtain t1 where
        wd': "write_data E' t buf ?tw = Some (ok, t1)" and tr1: "trace s1 = trace t1" by blast
      show ?thesis
      proof (cases "ok = 0")
        case ok: True
        with rest have "y = (- 1, s1)" by simp
        with wd' tr1 True ok show ?thesis by (subst pattern_loop.simps) (simp add: Let_def)
      next
        case ok: False
        with rest have "pl E s1 buf bufsz (filesz - ?tw) = Some y" by simp
        from IH[OF this] h tr1 obtain t' where
          "pattern_loop E' t1 buf bufsz (filesz - ?tw) = Some (fst y, t')" "trace (snd y) = trace t'"
          by blast
        with wd' True ok show ?thesis by (subst pattern_loop.simps) (simp add: Let_def)
      qed
    qed
  qed
qed

lemma random_loop_sim_aux:
  assumes a: "random_loop E s nbytes = Some y"
  shows "\<forall>E' t. same_answers E E' \<and> trace s = trace t \<longrightarrow>
           (\<exists>t'. random_loop E' t nbytes = Some (fst y, t') \<and> trace (snd y) = trace t')"
proof (rule random_loop.raw_induct
    [where P = "\<lambda>E s nbytes y. \<forall>E' t. same_answers E E' \<and> trace s = trace t \<longrightarrow>
       (\<exists>t'. random_loop E' t nbytes = Some (fst y, t') \<and> trace (snd y) = trace t')",
      OF _ a], goal_cases)
  case (1 rl E s nbytes y)
  note IH = 1(1)
  show ?case
  proof (intro allI impI)
    fix E' :: env and t :: fstate assume h: "same_answers E E' \<and> trace s = trace t"
    show "\<exists>t'. random_loop E' t nbytes = Some (fst y, t') \<and> trace (snd y) = trace t'"
    proof (cases "0 < nbytes")
      case False
      with 1(2) obtain r s' where fs: "sys_fsync E s = (r, s')" and y: "y = (0, s')"
        by (auto split: prod.splits)
      from sys_fsync_sim[OF _ fs, of t E'] h obtain r' t1 where
        "sys_fsync E' t = (r', t1)" "trace s' = trace t1" by blast
      with False y show ?thesis by (subst random_loop.simps) simp
    next
      case True
      let ?tw = "if SPC_WIPE_BUFSIZE < nbytes then SPC_WIPE_BUFSIZE else nbytes"
      obtain buf s0 where rnd: "spc_rand E s ?tw = (buf, s0)" by (cases "spc_rand E s ?tw")
      from spc_rand_sim[OF _ _ rnd] h obtain t0 where
        rnd': "spc_rand E' t ?tw = (buf, t0)" and tr0: "trace s0 = trace t0" by blast
      from 1(2) True rnd obtain ok s1 where wd: "write_data E s0 buf ?tw = Some (ok, s1)"
        and rest: "(if ok = 0 then Some (- 1, s1) else rl E s1 (nbytes - ?tw)) = Some y"
        by (auto simp: Let_def split: option.splits)
      from write_data_sim[OF wd _ tr0] h obtain t1 where
        wd': "write_data E' t0 buf ?tw = Some (ok, t1)" and tr1: "trace s1 = trace t1" by blast
      show ?thesis
      proof (cases "ok = 0")
        case ok: True
        with rest have "y = (- 1, s1)" by simp
        with wd' rnd' tr1 True ok show ?thesis by (subst random_loop.simps) (simp add: Let_def)
      next
        case ok: False
        with rest have "rl E s1 (nbytes - ?tw) = Some y" by simp
        from IH[OF this] h tr1 obtain t' where
          "random_loop E' t1 (nbytes - ?tw) = Some (fst y, t')" "trace (snd y) = trace t'"
          by blast
        with wd' rnd' True ok show ?thesis by (subst random_loop.simps) (simp add: Let_def)
      qed
    qed
  qed
qed

lemma random_pass_sim:
  assumes "random_pass E s n = Some (r, s')" and "same_answers E E'" and "trace s = trace t"
  shows "\<exists>t'. random_pass E' t n = Some (r, t') \<and> trace s' = trace t'"
proof -
  obtain x s1 where ls: "sys_lseek E s = (x, s1)" by (cases "sys_lseek E s")
  from sys_lseek_sim[OF assms(2,3) ls] obtain t1 where
    ls': "sys_lseek E' t = (x, t1)" and tr1: "trace s1 = trace t1" by blast
  show ?thesis
  proof (cases "x = 0")
    case False
    with assms(1) ls ls' tr1 show ?thesis by (auto simp: random_pass_def)
  next
    case True
    with assms(1) ls have "random_loop E s1 n = Some (r, s')" by (simp add: random_pass_def)
    from random_loop_sim_aux[OF this] assms(2) tr1 obtain t' where
      "random_loop E' t1 n = Some (r, t')" "trace s' = trace t'" by auto
    with ls' True show ?thesis by (simp add: random_pass_def)
  qed
qed

lemma pattern_pass_sim:
  assumes "pattern_pass E s buf bufsz n = Some (r, s')" and "same_answers E E'"
    and "trace s = trace t"
  shows "\<exists>t'. pattern_pass E' t buf bufsz n = Some (r, t') \<and> trace s' = trace t'"
proof (cases "bufsz = 0")
  case True
  with assms show ?thesis by (simp add: pattern_pass_def)
next
  case nz: False
  obtain x s1 where ls: "sys_lseek E s = (x, s1)" by (cases "sys_lseek E s")
  from sys_lseek_sim[OF assms(2,3) ls] obtain t1 where
    ls': "sys_lseek E' t = (x, t1)" and tr1: "trace s1 = trace t1" by blast
  show ?thesis
  proof (cases "x = 0")
    case False
    with assms(1) ls ls' tr1 nz show ?thesis by (auto simp: pattern_pass_def)
  next
    case True
    with assms(1) ls nz have "pattern_loop E s1 buf bufsz n = Some (r, s')"
      by (simp add: pattern_pass_def)
    from pattern_loop_sim_aux[OF this] assms(2) tr1 obtain t' where
      "pattern_loop E' t1 buf bufsz n = Some (r, t')" "trace s' = trace t'" by auto
    with ls' True nz show ?thesis by (simp add: pattern_pass_def)
  qed
qed

lemma rnd_step_sim:
  assumes "same_answers E E'"
  shows "step_sim (rnd_step E S) (rnd_step E' S)"
  unfolding step_sim_def
proof (intro allI impI)
  fix s t :: fstate and buf buf' :: "byte list" and r s'
  assume h: "rnd_step E S (s, buf) = Some (r, s', buf') \<and> trace s = trace t"
  then have run: "random_pass E s S = Some (r, s')" and b: "buf' = buf"
    by (auto simp: rnd_step_def)
  from random_pass_sim[OF run assms] h obtain t' where
    "random_pass E' t S = Some (r, t')" "trace s' = trace t'" by blast
  with b show "\<exists>t'. rnd_step E' S (t, buf) = Some (r, t', buf') \<and> trace s' = trace t'"
    by (simp add: rnd_step_def)
qed

lemma single_step_sim:
  assumes "same_answers E E'"
  shows "step_sim (single_step E S c) (single_step E' S c)"
  unfolding step_sim_def
proof (intro allI impI)
  fix s t :: fstate and buf buf' :: "byte list" and r s'
  assume h: "single_step E S c (s, buf) = Some (r, s', buf') \<and> trace s = trace t"
  let ?buf = "memset buf c SPC_WIPE_BUFSIZE"
  from h have run: "pattern_pass E s ?buf SPC_WIPE_BUFSIZE S = Some (r, s')" and b: "buf' = ?buf"
    by (auto simp: single_step_def Let_def)
  from pattern_pass_sim[OF run assms] h obtain t' where
    "pattern_pass E' t ?buf SPC_WIPE_BUFSIZE S = Some (r, t')" "trace s' = trace t'" by blast
  with b show "\<exists>t'. single_step E' S c (t, buf) = Some (r, t', buf') \<and> trace s' = trace t'"
    by (simp add: single_step_def Let_def)
qed

lemma triple_step_sim:
  assumes "same_answers E E'"
  shows "step_sim (triple_step E S p) (triple_step E' S p)"
  unfolding step_sim_def
proof (intro allI impI)
  fix s t :: fstate and buf buf' :: "byte list" and r s'
  assume h: "triple_step E S p (s, buf) = Some (r, s', buf') \<and> trace s = trace t"
  let ?n = "SPC_WIPE_BUFSIZE div patternsz"
  let ?buf = "foldl (\<lambda>b i. memcpy b (i * patternsz) p patternsz) buf [0..<?n]"
  from h have run: "pattern_pass E s ?buf (patternsz * ?n) S = Some (r, s')" and b: "buf' = ?buf"
    by (auto simp: triple_step_def Let_def)
  from pattern_pass_sim[OF run assms] h obtain t' where
    "pattern_pass E' t ?buf (patternsz * ?n) S = Some (r, t')" "trace s' = trace t'" by blast
  with b show "\<exists>t'. triple_step E' S p (t, buf) = Some (r, t', buf') \<and> trace s' = trace t'"
    by (simp add: triple_step_def Let_def)
qed

lemma seq_sim:
  assumes "list_all2 step_sim fs gs" and "seq fs (s, buf) = Some (r, s', buf')"
    and "trace s = trace t"
  shows "\<exists>t'. seq gs (t, buf) = Some (r, t', buf') \<and> trace s' = trace t'"
  using assms
proof (induction fs gs arbitrary: s t buf rule: list_all2_induct)
  case Nil
  then show ?case by simp
next
  case (Cons f fs g gs)
  from Cons.prems(1) obtain r1 s1 buf1 where f: "f (s, buf) = Some (r1, s1, buf1)"
    and rest: "(if r1 = - 1 then Some (- 1, s1, buf1) else seq fs (s1, buf1)) = Some (r, s', buf')"
    by (auto split: option.splits)
  from Cons.hyps(1) f Cons.prems(2) obtain t1 where
    g: "g (t, buf) = Some (r1, t1, buf1)" and tr1: "trace s1 = trace t1"
    unfolding step_sim_def by blast
  show ?case
  proof (cases "r1 = - 1")
    case True
    with rest g tr1 show ?thesis by simp
  next
    case False
    with rest have "seq fs (s1, buf1) = Some (r, s', buf')" by simp
    from Cons.IH[OF this tr1] g False show ?thesis by simp
  qed
qed

lemma wipe_steps_sim:
  assumes "same_answers E E'"
  shows "list_all2 step_sim (wipe_steps E S) (wipe_steps E' S)"
  unfolding wipe_steps_def
proof (intro list_all2_appendI list_all2_map_same)
  show "list_all2 step_sim
          [single_step E S (single_pats ! 5), single_step E S (single_pats ! 10)]
          [single_step E' S (single_pats ! 5), single_step E' S (single_pats ! 10)]"
    by (simp add: single_step_sim[OF assms])
qed (rule rnd_step_sim[OF assms] single_step_sim[OF assms] triple_step_sim[OF assms])+

lemma wipe_sim:
  assumes run: "spc_fd_wipe E s = Some (r, s')" and sim: "same_answers E E'"
    and tr: "trace s = trace t" and len: "length (content s) = length (content t)"
  shows "\<exists>t'. spc_fd_wipe E' t = Some (r, t') \<and> trace s' = trace t'"
proof -
  from sim tr have ok: "fstat_ok E' (tick t) = fstat_ok E (tick s)"
    by (simp add: same_answers_def tick_def)
  from wipe_trace[OF run] consider
    (stat) "\<not> fstat_ok E (tick s)" "r = - 1" "s' = log E (Fstat None) s"
  | (empty) "fstat_ok E (tick s)" "content s = []" "r = 0" "s' = log E (Fstat (Some 0)) s"
  | (passes) "fstat_ok E (tick s)" "content s \<noteq> []"
    by blast
  then show ?thesis
  proof cases
    case stat
    with ok tr show ?thesis by (simp add: spc_fd_wipe_def sys_fstat_cases trace_log)
  next
    case empty
    with ok tr len show ?thesis by (simp add: spc_fd_wipe_def sys_fstat_cases trace_log)
  next
    case passes
    let ?S = "length (content s)"
    let ?s0 = "log E (Fstat (Some ?S)) s" and ?t0 = "log E' (Fstat (Some ?S)) t"
    from run[unfolded spc_fd_wipe_def wipe_seq_flat] passes obtain buf' where
      sq: "seq (wipe_steps E ?S) (?s0, replicate SPC_WIPE_BUFSIZE 0) = Some (r, s', buf')"
      by (auto simp: sys_fstat_cases)
    from tr have "trace ?s0 = trace ?t0" by (simp add: trace_log)
    from seq_sim[OF wipe_steps_sim[OF sim] sq this] obtain t' where
      "seq (wipe_steps E' ?S) (?t0, replicate SPC_WIPE_BUFSIZE 0) = Some (r, t', buf')"
      "trace s' = trace t'" by blast
    moreover from passes len have "content t \<noteq> []" by auto
    ultimately show ?thesis using passes ok len
      unfolding spc_fd_wipe_def wipe_seq_flat by (simp add: sys_fstat_cases)
  qed
qed

lemma observe_eqI:
  assumes "\<And>r s'. A = Some (r, s') \<Longrightarrow> \<exists>t'. B = Some (r, t') \<and> trace s' = trace t'"
    and "\<And>r t'. B = Some (r, t') \<Longrightarrow> \<exists>s'. A = Some (r, s') \<and> trace t' = trace s'"
  shows "observe A = observe B"
proof (cases A)
  case None
  with assms(2) show ?thesis by (cases B) (auto simp: observe_def)
next
  case (Some y)
  obtain r s' where y: "y = (r, s')" by (cases y)
  from assms(1)[OF Some[unfolded y]] obtain t' where "B = Some (r, t')" "trace s' = trace t'"
    by blast
  with Some y show ?thesis by (simp add: observe_def)
qed

lemma fsync_same_answers: "same_answers E (E\<lparr>fsync_ret := g\<rparr>)"
  by (simp add: same_answers_def)

lemma flush_fail_run:
  "random_pass flush_fail_env (file_of [0x41]) 1 = Some (0, flush_fail_final)"
  by (simp add: run_simps flush_fail_env_def flush_fail_final_def)

lemma seg_flushed:
  assumes "(r = 0 \<and> ok_seg n seg) \<or> (r = - 1 \<and> bad_seg seg)" and "last seg = Fsync"
  shows "r = 0"
  using assms bad_seg_last[of seg] by auto

text \<open>
  Claim C8. What \<^verbatim>\<open>fsync\<close> returns has no influence on a pass or on the wipe: replacing
  the answers of \<^verbatim>\<open>fsync\<close> by any others (failures included) changes neither whether
  the call returns, nor its return value, nor the calls it makes; and a pass whose last
  call is the \<^verbatim>\<open>fsync\<close> returns 0, whatever that call returned.
\<close>

theorem flush_result_ignored:
  "observe (random_pass (E\<lparr>fsync_ret := g\<rparr>) s n) = observe (random_pass E s n)
   \<and> observe (pattern_pass (E\<lparr>fsync_ret := g\<rparr>) s buf bufsz n) = observe (pattern_pass E s buf bufsz n)
   \<and> observe (spc_fd_wipe (E\<lparr>fsync_ret := g\<rparr>) s) = observe (spc_fd_wipe E s)
   \<and> (random_pass E s n = Some (r, s') \<and> last (new_events s s') = Fsync \<longrightarrow> r = 0)
   \<and> (pattern_pass E s buf bufsz n = Some (r, s') \<and> new_events s s' \<noteq> []
        \<and> last (new_events s s') = Fsync \<longrightarrow> r = 0)"
proof (intro conjI impI)
  let ?E = "E\<lparr>fsync_ret := g\<rparr>"
  note a = fsync_same_answers[of E g]
  note b = same_answers_sym[OF a]
  show "observe (random_pass ?E s n) = observe (random_pass E s n)"
  proof (rule observe_eqI)
    fix r s' assume "random_pass ?E s n = Some (r, s')"
    from random_pass_sim[OF this b refl]
    show "\<exists>t'. random_pass E s n = Some (r, t') \<and> trace s' = trace t'" .
  next
    fix r t' assume "random_pass E s n = Some (r, t')"
    from random_pass_sim[OF this a refl]
    show "\<exists>s'. random_pass ?E s n = Some (r, s') \<and> trace t' = trace s'" .
  qed
  show "observe (pattern_pass ?E s buf bufsz n) = observe (pattern_pass E s buf bufsz n)"
  proof (rule observe_eqI)
    fix r s' assume "pattern_pass ?E s buf bufsz n = Some (r, s')"
    from pattern_pass_sim[OF this b refl]
    show "\<exists>t'. pattern_pass E s buf bufsz n = Some (r, t') \<and> trace s' = trace t'" .
  next
    fix r t' assume "pattern_pass E s buf bufsz n = Some (r, t')"
    from pattern_pass_sim[OF this a refl]
    show "\<exists>s'. pattern_pass ?E s buf bufsz n = Some (r, s') \<and> trace t' = trace s'" .
  qed
  show "observe (spc_fd_wipe ?E s) = observe (spc_fd_wipe E s)"
  proof (rule observe_eqI)
    fix r s' assume "spc_fd_wipe ?E s = Some (r, s')"
    from wipe_sim[OF this b refl refl]
    show "\<exists>t'. spc_fd_wipe E s = Some (r, t') \<and> trace s' = trace t'" .
  next
    fix r t' assume "spc_fd_wipe E s = Some (r, t')"
    from wipe_sim[OF this a refl refl]
    show "\<exists>s'. spc_fd_wipe ?E s = Some (r, s') \<and> trace t' = trace s'" .
  qed
next
  assume h: "random_pass E s n = Some (r, s') \<and> last (new_events s s') = Fsync"
  from random_pass_seg[of E s n r s'] h obtain seg where
    tr: "trace s' = trace s @ seg" and sh: "(r = 0 \<and> ok_seg n seg) \<or> (r = - 1 \<and> bad_seg seg)"
    by blast
  from new_events_append[OF tr] h have "last seg = Fsync" by simp
  from seg_flushed[OF sh this] show "r = 0" .
next
  assume h: "pattern_pass E s buf bufsz n = Some (r, s') \<and> new_events s s' \<noteq> []
        \<and> last (new_events s s') = Fsync"
  have "0 < bufsz"
  proof (rule ccontr)
    assume "\<not> 0 < bufsz"
    with h have "s' = s" by (simp add: pattern_pass_def)
    with h show False by (simp add: new_events_def)
  qed
  from pattern_pass_seg[OF _ this, of E s buf n r s'] h obtain seg where
    tr: "trace s' = trace s @ seg" and sh: "(r = 0 \<and> ok_seg n seg) \<or> (r = - 1 \<and> bad_seg seg)"
    by blast
  from new_events_append[OF tr] h have "last seg = Fsync" by simp
  from seg_flushed[OF sh this] show "r = 0" .
qed

theorem flush_result_ignored_witness:
  "fsync_ret flush_fail_env 3 = - 1
   \<and> random_pass flush_fail_env (file_of [0x41]) 1 = Some (0, flush_fail_final)
   \<and> last (new_events (file_of [0x41]) flush_fail_final) = Fsync
   \<and> fst (the (random_pass flush_fail_env (file_of [0x41]) 1)) = 0"
proof -
  have l: "last (new_events (file_of [0x41]) flush_fail_final) = Fsync"
    by (simp add: new_events_def file_of_def flush_fail_final_def)
  from flush_result_ignored[where E = flush_fail_env and s = "file_of [0x41]" and n = 1
      and r = "fst (the (random_pass flush_fail_env (file_of [0x41]) 1))"
      and s' = "snd (the (random_pass flush_fail_env (file_of [0x41]) 1))"]
    flush_fail_run l
  show ?thesis by (simp add: flush_fail_env_def)
qed

lemma same_answers_refl: "same_answers E E"
  by (simp add: same_answers_def)

text \<open>
  Claim C9. Two files of equal size with the same history of calls, wiped in the same
  environment (the same answers of every call and of the random source), give the same
  result: either both wipes do not return, or both return the same value after the same
  sequence of calls with the same data. The stored bytes of the file are never read.
\<close>

theorem wipe_ignores_content:
  assumes "trace s = trace t" and "length (content s) = length (content t)"
  shows "observe (spc_fd_wipe E s) = observe (spc_fd_wipe E t)"
proof (rule observe_eqI)
  fix r s' assume "spc_fd_wipe E s = Some (r, s')"
  from wipe_sim[OF this same_answers_refl assms]
  show "\<exists>t'. spc_fd_wipe E t = Some (r, t') \<and> trace s' = trace t'" .
next
  fix r t' assume "spc_fd_wipe E t = Some (r, t')"
  from wipe_sim[OF this same_answers_refl assms(1)[symmetric] assms(2)[symmetric]]
  show "\<exists>s'. spc_fd_wipe E s = Some (r, s') \<and> trace t' = trace s'" .
qed

theorem wipe_ignores_content_witness:
  "trace (file_of [0x41, 0x42]) = trace (file_of [0x13, 0x37])
   \<and> length (content (file_of [0x41, 0x42])) = length (content (file_of [0x13, 0x37]))
   \<and> observe (spc_fd_wipe ideal_env (file_of [0x41, 0x42]))
       = observe (spc_fd_wipe ideal_env (file_of [0x13, 0x37]))"
proof -
  have a: "trace (file_of [0x41, 0x42]) = trace (file_of [0x13, 0x37])"
    and b: "length (content (file_of [0x41, 0x42])) = length (content (file_of [0x13, 0x37]))"
    by (simp_all add: file_of_def)
  from wipe_ignores_content[OF a b] a b show ?thesis by blast
qed

end
